theory Spec2Isabelle
  imports Complex_Main "HOL-Library.Multiset"
begin

section \<open>Strings and numbers of the source language\<close>

text \<open>
  A TypeScript string is a sequence of UTF-16 code units. It is modelled by \<^typ>\<open>string\<close>,
  that is by the strings all of whose code units are below 256 (the Latin-1 block), one
  \<^typ>\<open>char\<close> per code unit. On that range \<open>toLowerCase\<close> maps \<open>A..Z\<close> and the
  accented capitals \<open>U+00C0..U+00DE\<close> (without the multiplication sign \<open>U+00D7\<close>) to the
  code unit 32 places further on, and \<open>trim\<close> removes TAB, LF, VT, FF, CR, SPACE and
  NBSP from both ends. Both keep the length of the strings they do not shorten.

  A TypeScript number is a double. Scores are modelled by exact rationals: the rounding of
  the double arithmetic is not part of the model. List lengths and indices are naturals.
\<close>

definition isUpper :: "char \<Rightarrow> bool" where
  "isUpper c = (let n = (of_char c :: nat) in (65 \<le> n \<and> n \<le> 90) \<or> (192 \<le> n \<and> n \<le> 222 \<and> n \<noteq> 215))"

definition lowerChar :: "char \<Rightarrow> char" where
  "lowerChar c = (if isUpper c then char_of ((of_char c :: nat) + 32) else c)"

definition toLowerCase :: "string \<Rightarrow> string" where
  "toLowerCase s = map lowerChar s"

definition isSpace :: "char \<Rightarrow> bool" where
  "isSpace c = ((of_char c :: nat) \<in> {9, 10, 11, 12, 13, 32, 160})"

definition trim :: "string \<Rightarrow> string" where
  "trim s = rev (dropWhile isSpace (rev (dropWhile isSpace s)))"

text \<open>\<open>t.startsWith(q)\<close>\<close>

fun startsWith :: "string \<Rightarrow> string \<Rightarrow> bool" where
  "startsWith t [] = True"
| "startsWith [] (d # q) = False"
| "startsWith (c # t) (d # q) = (c = d \<and> startsWith t q)"

text \<open>\<open>t.indexOf(q)\<close>: the first position at which \<open>q\<close> occurs in \<open>t\<close>; the source's
  \<open>-1\<close> is \<open>None\<close>.\<close>

fun indexOf :: "string \<Rightarrow> string \<Rightarrow> nat option" where
  "indexOf [] q = (if q = [] then Some 0 else None)"
| "indexOf (c # t) q =
     (if startsWith (c # t) q then Some 0
      else (case indexOf t q of None \<Rightarrow> None | Some i \<Rightarrow> Some (Suc i)))"

definition includes_str :: "string \<Rightarrow> string \<Rightarrow> bool" where
  "includes_str t q = (indexOf t q \<noteq> None)"

text \<open>\<open>Math.ceil(n * 0.4)\<close> for a length \<open>n\<close>, as the exact ceiling of \<open>2n/5\<close>.\<close>

definition ceil04 :: "nat \<Rightarrow> nat" where
  "ceil04 n = (2 * n + 4) div 5"

section \<open>The scorer\<close>

text \<open>
  The loop of \<open>scoreMatch\<close> that walks the text once and matches the query's characters
  in order. Its state is \<open>(qi, maxRun, currentRun, totalMatched)\<close>; the loop stops at the end
  of the text or as soon as \<open>qi\<close> reaches the query's length.
\<close>

fun fuzzyLoop :: "string \<Rightarrow> string \<Rightarrow> nat \<Rightarrow> nat \<Rightarrow> nat \<Rightarrow> nat \<Rightarrow> nat \<times> nat \<times> nat \<times> nat" where
  "fuzzyLoop lq [] qi maxRun currentRun totalMatched = (qi, maxRun, currentRun, totalMatched)"
| "fuzzyLoop lq (c # rest) qi maxRun currentRun totalMatched =
     (if qi < length lq then
        (if c = lq ! qi
         then fuzzyLoop lq rest (qi + 1) (max maxRun (currentRun + 1)) (currentRun + 1) (totalMatched + 1)
         else fuzzyLoop lq rest qi maxRun 0 totalMatched)
      else (qi, maxRun, currentRun, totalMatched))"

definition scoreMatch :: "string \<Rightarrow> string \<Rightarrow> rat" where
  "scoreMatch query text =
    (let lq = toLowerCase query; lt = toLowerCase text in
     if lt = lq then 10000
     else if startsWith lt lq then 5000 + (of_nat (length lq) / of_nat (length lt)) * 100
     else (case indexOf lt lq of
        Some subIdx \<Rightarrow>
          (let atBoundary = (subIdx = 0 \<or> lt ! (subIdx - 1) = CHR ''-'' \<or> lt ! (subIdx - 1) = CHR '' '')
           in 1000 + (of_nat (length lq) / of_nat (length lt)) * 100 + (if atBoundary then 200 else 0))
      | None \<Rightarrow>
          (case fuzzyLoop lq lt 0 0 0 0 of (qi, maxRun, currentRun, totalMatched) \<Rightarrow>
             if qi < length lq then 0
             else if length lq \<le> 2 \<and> maxRun < length lq then 0
             else if maxRun < ceil04 (length lq) then 0
             else 100 + of_nat maxRun * 30 + (of_nat totalMatched / of_nat (length lt)) * 50)))"

text \<open>The tier in which \<open>scoreMatch\<close> places a text: the branch that returns.\<close>

datatype tier = Exact | Prefix | Substring | Subsequence | NoMatch

definition tierOf :: "string \<Rightarrow> string \<Rightarrow> tier" where
  "tierOf query text =
    (let lq = toLowerCase query; lt = toLowerCase text in
     if lt = lq then Exact
     else if startsWith lt lq then Prefix
     else (case indexOf lt lq of
        Some subIdx \<Rightarrow> Substring
      | None \<Rightarrow>
          (case fuzzyLoop lq lt 0 0 0 0 of (qi, maxRun, currentRun, totalMatched) \<Rightarrow>
             if qi < length lq then NoMatch
             else if length lq \<le> 2 \<and> maxRun < length lq then NoMatch
             else if maxRun < ceil04 (length lq) then NoMatch
             else Subsequence)))"

section \<open>The data model\<close>

datatype Source = Home | Local

record Skill =
  name :: string
  namespace :: string
  description :: string
  filePath :: string
  source :: Source

record SkillUsage =
  name_u :: string
  namespace_u :: string
  timestamp_u :: int
  count_u :: int

text \<open>A display item is a header carrying a group label, or a skill with its group label.\<close>

datatype DisplayItem = Header string | Entry Skill string

fun isSkill :: "DisplayItem \<Rightarrow> bool" where
  "isSkill (Entry s g) = True"
| "isSkill (Header g) = False"

record PaletteState =
  queuedSkill :: "Skill option"
  recentSkills :: "SkillUsage list"

datatype PaletteAction = Select Skill | Unqueue Skill | Cancel

section \<open>Arrays, sets and maps of the source language\<close>

text \<open>
  \<open>xs.sort(cmp)\<close>: the standard requires a stable sort, and for a consistent comparator the
  stable sorted arrangement is unique. The model is the stable insertion sort: an element
  moves behind the elements that the comparator puts strictly before it.
\<close>

fun insertBy :: "('a \<Rightarrow> 'a \<Rightarrow> rat) \<Rightarrow> 'a \<Rightarrow> 'a list \<Rightarrow> 'a list" where
  "insertBy cmp x [] = [x]"
| "insertBy cmp x (y # ys) = (if cmp x y \<le> 0 then x # y # ys else y # insertBy cmp x ys)"

definition sortBy :: "('a \<Rightarrow> 'a \<Rightarrow> rat) \<Rightarrow> 'a list \<Rightarrow> 'a list" where
  "sortBy cmp xs = foldr (insertBy cmp) xs []"

text \<open>\<open>[...new Set(xs)]\<close>: the distinct elements in the order of their first occurrence.\<close>

definition newSet :: "'a list \<Rightarrow> 'a list" where
  "newSet xs = foldl (\<lambda>acc x. if x \<in> set acc then acc else acc @ [x]) [] xs"

text \<open>
  A \<open>Map\<close> keeps its keys in insertion order: an association list, in which \<open>set\<close>
  overwrites the value of a key that is present and appends a key that is new.
\<close>

fun mapSet :: "('k \<times> 'v) list \<Rightarrow> 'k \<Rightarrow> 'v \<Rightarrow> ('k \<times> 'v) list" where
  "mapSet [] k v = [(k, v)]"
| "mapSet ((k', v') # m) k v = (if k' = k then (k, v) # m else (k', v') # mapSet m k v)"

definition mapGet :: "('k \<times> 'v) list \<Rightarrow> 'k \<Rightarrow> 'v option" where
  "mapGet m k = map_of m k"

text \<open>\<open>xs.findIndex(p)\<close>; the source's \<open>-1\<close> is \<open>None\<close>.\<close>

fun findIndex :: "('a \<Rightarrow> bool) \<Rightarrow> 'a list \<Rightarrow> nat option" where
  "findIndex p [] = None"
| "findIndex p (x # xs) =
     (if p x then Some 0 else (case findIndex p xs of None \<Rightarrow> None | Some i \<Rightarrow> Some (Suc i)))"

section \<open>The match engine: \<open>filterSkills\<close>\<close>

definition colonScore :: "string \<Rightarrow> Skill \<Rightarrow> rat" where
  "colonScore nameQuery skill =
     max (scoreMatch nameQuery (name skill)) (scoreMatch nameQuery (description skill) * (3 / 10))"

definition plainScore :: "string \<Rightarrow> Skill \<Rightarrow> rat" where
  "plainScore lowerQuery skill =
    (let nameScore = scoreMatch lowerQuery (name skill);
         nsNameScore = scoreMatch lowerQuery (namespace skill @ '':'' @ name skill) * (9 / 10);
         descLower = toLowerCase (description skill);
         descScore = (if includes_str descLower lowerQuery
                      then 500 + (of_nat (length lowerQuery) / of_nat (length descLower)) * 100
                      else 0)
     in max (max nameScore nsNameScore) descScore)"

text \<open>
  The chain \<open>map\<close> (pair each skill with its score), \<open>filter\<close> (score above zero),
  \<open>sort\<close> (score descending), \<open>map\<close> (back to the skill), as both ranking branches have it.
\<close>

definition rank :: "(Skill \<Rightarrow> rat) \<Rightarrow> Skill list \<Rightarrow> Skill list" where
  "rank score skills =
    (let scored = sortBy (\<lambda>a b. snd b - snd a)
                    (filter (\<lambda>item. snd item > 0) (map (\<lambda>skill. (skill, score skill)) skills))
     in map fst scored)"

definition filterSkills :: "Skill list \<Rightarrow> string \<Rightarrow> Skill list" where
  "filterSkills skills query =
    (if trim query = [] then skills
     else
       let lowerQuery = trim (toLowerCase query);
           colonIdx = indexOf query '':''
       in
       if (case colonIdx of None \<Rightarrow> False | Some i \<Rightarrow> i > 0) then
         (let nsFilter = toLowerCase (take (the colonIdx) query);
              nameQuery = trim (drop (the colonIdx + 1) query);
              nsSkills = filter (\<lambda>s. startsWith (toLowerCase (namespace s)) nsFilter) skills
          in if nameQuery = [] then nsSkills else rank (colonScore nameQuery) nsSkills)
       else
         let exactNsMatch = filter (\<lambda>s. toLowerCase (namespace s) = lowerQuery) skills in
         if length exactNsMatch > 0 then exactNsMatch
         else
           let nsMatches = filter (\<lambda>ns. startsWith ns lowerQuery)
                             (newSet (map (\<lambda>s. toLowerCase (namespace s)) skills)) in
           if length nsMatches = 1
           then filter (\<lambda>s. toLowerCase (namespace s) = nsMatches ! 0) skills
           else rank (plainScore lowerQuery) skills)"

section \<open>The match engine: \<open>buildDisplayList\<close>\<close>

text \<open>
  \<open>localeCompare\<close> belongs to the runtime, not to the repository: it is the parameter
  \<open>lc\<close> of everything that sorts names. A comparator is consistent when the relation
  \<open>lc a b \<le> 0\<close> is total and transitive, which every collation satisfies.
\<close>

definition consistent :: "(string \<Rightarrow> string \<Rightarrow> rat) \<Rightarrow> bool" where
  "consistent lc = ((\<forall>a b. lc a b \<le> 0 \<or> lc b a \<le> 0) \<and>
                    (\<forall>a b c. lc a b \<le> 0 \<longrightarrow> lc b c \<le> 0 \<longrightarrow> lc a c \<le> 0))"

definition recentSection :: "Skill list \<Rightarrow> SkillUsage list \<Rightarrow> DisplayItem list" where
  "recentSection skills rs =
    (if length rs > 0 then
       (let recentSkills = map the (filter (\<lambda>s. s \<noteq> None)
                             (map (\<lambda>r. find (\<lambda>s. name s = name_u r) skills) rs))
        in if length recentSkills > 0
           then Header ''recent'' # map (\<lambda>skill. Entry skill ''recent'') recentSkills
           else [])
     else [])"

text \<open>One round of the loop that fills the \<open>groups\<close> map.\<close>

definition groupStep :: "string list \<Rightarrow> (string \<times> Skill list) list \<Rightarrow> Skill \<Rightarrow> (string \<times> Skill list) list" where
  "groupStep recentNames groups skill =
    (if name skill \<in> set recentNames then groups
     else (let list = (case mapGet groups (namespace skill) of Some l \<Rightarrow> l | None \<Rightarrow> [])
           in mapSet groups (namespace skill) (list @ [skill])))"

definition groupsOf :: "Skill list \<Rightarrow> SkillUsage list \<Rightarrow> (string \<times> Skill list) list" where
  "groupsOf skills rs = foldl (groupStep (newSet (map name_u rs))) [] skills"

definition nsCompare :: "(string \<Rightarrow> string \<Rightarrow> rat) \<Rightarrow> string \<Rightarrow> string \<Rightarrow> rat" where
  "nsCompare lc a b = (if a = ''other'' then 1 else if b = ''other'' then - 1 else lc a b)"

definition sortedNs :: "(string \<Rightarrow> string \<Rightarrow> rat) \<Rightarrow> (string \<times> Skill list) list \<Rightarrow> string list" where
  "sortedNs lc groups = sortBy (nsCompare lc) (map fst groups)"

text \<open>
  The body of the loop over \<open>sortedNs\<close>. The source reads \<open>groups.get(ns)!\<close>; every
  \<open>ns\<close> of the loop is a key of the map (lemma \<open>sortedNs_keys\<close> below), so \<open>the\<close>
  is only ever applied to a \<open>Some\<close>.
\<close>

definition groupBlock :: "(string \<Rightarrow> string \<Rightarrow> rat) \<Rightarrow> (string \<times> Skill list) list \<Rightarrow> string \<Rightarrow> DisplayItem list" where
  "groupBlock lc groups ns =
    (let sorted = sortBy (\<lambda>a b. lc (name a) (name b)) (the (mapGet groups ns))
     in Header ns # map (\<lambda>skill. Entry skill ns) sorted)"

definition groupSection :: "(string \<Rightarrow> string \<Rightarrow> rat) \<Rightarrow> Skill list \<Rightarrow> SkillUsage list \<Rightarrow> DisplayItem list" where
  "groupSection lc skills rs =
    (let groups = groupsOf skills rs
     in concat (map (groupBlock lc groups) (sortedNs lc groups)))"

definition buildDisplayList :: "(string \<Rightarrow> string \<Rightarrow> rat) \<Rightarrow> Skill list \<Rightarrow> SkillUsage list \<Rightarrow> DisplayItem list" where
  "buildDisplayList lc skills rs = recentSection skills rs @ groupSection lc skills rs"

text \<open>What the ordering claim speaks of: the labels of the headers, and the property that
  the nearest header before every entry exists and carries the entry's group label.\<close>

fun headerLabels :: "DisplayItem list \<Rightarrow> string list" where
  "headerLabels [] = []"
| "headerLabels (Header g # xs) = g # headerLabels xs"
| "headerLabels (Entry s g # xs) = headerLabels xs"

fun headed :: "string option \<Rightarrow> DisplayItem list \<Rightarrow> bool" where
  "headed cur [] = True"
| "headed cur (Header g # xs) = headed (Some g) xs"
| "headed cur (Entry s g # xs) = (cur = Some g \<and> headed cur xs)"

text \<open>The names of the skills of a display list, in the order of their entries.\<close>

fun entryNames :: "DisplayItem list \<Rightarrow> string list" where
  "entryNames [] = []"
| "entryNames (Header g # xs) = entryNames xs"
| "entryNames (Entry s g # xs) = name s # entryNames xs"

section \<open>Usage records\<close>

definition MAX_RECENTS :: nat where
  "MAX_RECENTS = 8"

text \<open>
  \<open>recordUsage\<close>; \<open>now\<close> is the value of \<open>Date.now()\<close>. The write to disk that ends the
  function does not change the state and is left out.
\<close>

definition recordUsage :: "int \<Rightarrow> PaletteState \<Rightarrow> Skill \<Rightarrow> PaletteState" where
  "recordUsage now state skill =
    (let existing = find (\<lambda>r. name_u r = name skill) (recentSkills state);
         count = (case existing of Some r \<Rightarrow> count_u r | None \<Rightarrow> 0) + 1;
         removed = filter (\<lambda>r. name_u r \<noteq> name skill) (recentSkills state);
         unshifted = \<lparr>name_u = name skill, namespace_u = namespace skill,
                       timestamp_u = now, count_u = count\<rparr> # removed
     in state\<lparr>recentSkills :=
          (if length unshifted > MAX_RECENTS then take MAX_RECENTS unshifted else unshifted)\<rparr>)"

section \<open>The selection state machine\<close>

record PaletteRenderState =
  allSkills :: "Skill list"
  displayItems :: "DisplayItem list"
  selectedIndex :: int
  query :: string
  queuedSkillName :: "string option"
  recents :: "SkillUsage list"

definition firstSkillIndex :: "DisplayItem list \<Rightarrow> nat option" where
  "firstSkillIndex items = findIndex isSkill items"

definition createPaletteState ::
  "(string \<Rightarrow> string \<Rightarrow> rat) \<Rightarrow> Skill list \<Rightarrow> string option \<Rightarrow> SkillUsage list \<Rightarrow> PaletteRenderState" where
  "createPaletteState lc skills queued rs =
    (let items = buildDisplayList lc skills rs
     in \<lparr>allSkills = skills, displayItems = items,
         selectedIndex = (case findIndex isSkill items of Some i \<Rightarrow> int i | None \<Rightarrow> 0),
         query = [], queuedSkillName = queued, recents = rs\<rparr>)"

text \<open>The parameter \<open>direction: 1 | -1\<close>.\<close>

datatype direction = Plus | Minus

fun delta :: "direction \<Rightarrow> int" where
  "delta Plus = 1"
| "delta Minus = - 1"

text \<open>
  The \<open>while\<close> loop of \<open>nextSkillIndex\<close>: from \<open>idx\<close> in direction \<open>d\<close> to the first skill,
  \<open>None\<close> when the index leaves the array. The \<open>for\<close> loop that looks for the last skill
  is the same walk, started at the last index in direction \<open>-1\<close>.
\<close>

function scanLoop :: "DisplayItem list \<Rightarrow> int \<Rightarrow> direction \<Rightarrow> int option" where
  "scanLoop items idx d =
    (if idx \<ge> 0 \<and> idx < int (length items)
     then (if isSkill (items ! nat idx) then Some idx else scanLoop items (idx + delta d) d)
     else None)"
  by pat_completeness auto
termination
  by (relation "measure (\<lambda>(items, idx, d).
        case d of Plus \<Rightarrow> nat (int (length items) - idx) | Minus \<Rightarrow> nat (idx + 1))")
     (auto split: direction.splits)

definition nextSkillIndex :: "DisplayItem list \<Rightarrow> int \<Rightarrow> direction \<Rightarrow> int" where
  "nextSkillIndex items from d =
    (case scanLoop items (from + delta d) d of
       Some idx \<Rightarrow> idx
     | None \<Rightarrow>
        (case d of
           Plus \<Rightarrow> (case firstSkillIndex items of Some first \<Rightarrow> int first | None \<Rightarrow> 0)
         | Minus \<Rightarrow> (case scanLoop items (int (length items) - 1) Minus of Some i \<Rightarrow> i | None \<Rightarrow> 0)))"

definition updateFilter :: "(string \<Rightarrow> string \<Rightarrow> rat) \<Rightarrow> PaletteRenderState \<Rightarrow> PaletteRenderState" where
  "updateFilter lc state =
    (let filtered = filterSkills (allSkills state) (query state);
         items = (if trim (query state) \<noteq> []
                  then map (\<lambda>skill. Entry skill (namespace skill)) filtered
                  else buildDisplayList lc filtered (recents state))
     in state\<lparr>displayItems := items,
              selectedIndex := (case firstSkillIndex items of Some first \<Rightarrow> int first | None \<Rightarrow> 0)\<rparr>)"

text \<open>\<open>items[i]\<close>: \<open>undefined\<close> outside the array.\<close>

definition elemAt :: "'a list \<Rightarrow> int \<Rightarrow> 'a option" where
  "elemAt xs i = (if 0 \<le> i \<and> i < int (length xs) then Some (xs ! nat i) else None)"

text \<open>
  \<open>handlePaletteInput\<close> returns the action (\<open>None\<close> for \<open>undefined\<close>) and the state as the
  call leaves it. \<open>matchesKey\<close> comes from the terminal library, not from the repository:
  it is the parameter \<open>mk\<close>, asked about the key names the source passes to it.
\<close>

definition handlePaletteInput ::
  "(string \<Rightarrow> string \<Rightarrow> bool) \<Rightarrow> (string \<Rightarrow> string \<Rightarrow> rat) \<Rightarrow> PaletteRenderState \<Rightarrow> string
     \<Rightarrow> PaletteAction option \<times> PaletteRenderState" where
  "handlePaletteInput mk lc state data =
    (if mk data ''escape'' then (Some Cancel, state)
     else if mk data ''return'' then
       (case elemAt (displayItems state) (selectedIndex state) of
          Some (Entry skill g) \<Rightarrow>
            (if Some (name skill) = queuedSkillName state
             then (Some (Unqueue skill), state)
             else (Some (Select skill), state))
        | _ \<Rightarrow> (None, state))
     else if mk data ''up'' then
       (None, state\<lparr>selectedIndex := nextSkillIndex (displayItems state) (selectedIndex state) Minus\<rparr>)
     else if mk data ''down'' then
       (None, state\<lparr>selectedIndex := nextSkillIndex (displayItems state) (selectedIndex state) Plus\<rparr>)
     else if mk data ''backspace'' then
       (if length (query state) > 0
        then (None, updateFilter lc (state\<lparr>query := butlast (query state)\<rparr>))
        else (None, state))
     else if length data = 1 \<and> (of_char (data ! 0) :: nat) \<ge> 32
     then (None, updateFilter lc (state\<lparr>query := query state @ data\<rparr>))
     else (None, state))"

text \<open>The states a session can be in: the initial one and what any input leaves.\<close>

inductive reachable ::
  "(string \<Rightarrow> string \<Rightarrow> bool) \<Rightarrow> (string \<Rightarrow> string \<Rightarrow> rat) \<Rightarrow> PaletteRenderState \<Rightarrow> bool"
  for mk lc where
  init: "reachable mk lc (createPaletteState lc skills queued rs)"
| step: "reachable mk lc s \<Longrightarrow> reachable mk lc (snd (handlePaletteInput mk lc s data))"

text \<open>
  The cursor invariant: the index points at a skill of the list when the list has a skill,
  and is 0 when it has none.
\<close>

definition pointsOk :: "DisplayItem list \<Rightarrow> int \<Rightarrow> bool" where
  "pointsOk items j =
    (if list_ex isSkill items
     then (case elemAt items j of Some item \<Rightarrow> isSkill item | None \<Rightarrow> False)
     else j = 0)"

definition cursorOk :: "PaletteRenderState \<Rightarrow> bool" where
  "cursorOk s = pointsOk (displayItems s) (selectedIndex s)"

section \<open>Concrete inputs\<close>

text \<open>
  The skills and the key codes of the repository's tests, and the comparison by code units,
  a consistent comparator that stands for \<open>localeCompare\<close> where a closed example has to be
  computed.
\<close>

definition makeSkill :: "string \<Rightarrow> string \<Rightarrow> Skill" where
  "makeSkill n ns = \<lparr>name = n, namespace = ns, description = ''Desc for '' @ n,
                      filePath = ''/fake/'' @ n @ ''/SKILL.md'', source = Home\<rparr>"

definition testSkills :: "Skill list" where
  "testSkills = [makeSkill ''fizzy-cli'' ''tools'', makeSkill ''brave-search'' ''search'',
                 makeSkill ''ad-creative'' ''marketing'']"

definition KEYS :: "string \<Rightarrow> string \<Rightarrow> bool" where
  "KEYS data key =
    ((key = ''up'' \<and> data = [CHR 0x1B, CHR ''['', CHR ''A'']) \<or>
     (key = ''down'' \<and> data = [CHR 0x1B, CHR ''['', CHR ''B'']) \<or>
     (key = ''return'' \<and> data = [CHR 0x0D]) \<or>
     (key = ''escape'' \<and> data = [CHR 0x1B]) \<or>
     (key = ''backspace'' \<and> data = [CHR 0x7F]))"

fun codeUnitCompare :: "string \<Rightarrow> string \<Rightarrow> rat" where
  "codeUnitCompare [] [] = 0"
| "codeUnitCompare [] (d # b) = - 1"
| "codeUnitCompare (c # a) [] = 1"
| "codeUnitCompare (c # a) (d # b) =
     (if (of_char c :: nat) < of_char d then - 1
      else if (of_char d :: nat) < of_char c then 1
      else codeUnitCompare a b)"

text \<open>A skill whose description, but not whose name, matches the query \<open>ad\<close>.\<close>

definition adTool :: Skill where
  "adTool = \<lparr>name = ''zzz'', namespace = ''n'', description = ''ad tool'',
              filePath = ''/fake/zzz/SKILL.md'', source = Home\<rparr>"

text \<open>
  A catalog with the namespace \<open>other\<close> and a group of three skills, and a recents list
  with a stale record whose live records are not in alphabetical order.
\<close>

definition groupedSkills :: "Skill list" where
  "groupedSkills = testSkills @ [makeSkill ''zed'' ''other'', makeSkill ''abc'' ''tools'',
                                  makeSkill ''p'' ''zz'', makeSkill ''able'' ''tools'',
                                  makeSkill ''yak'' ''other'']"

definition someRecents :: "SkillUsage list" where
  "someRecents = [\<lparr>name_u = ''zed'', namespace_u = ''other'', timestamp_u = 3, count_u = 2\<rparr>,
                  \<lparr>name_u = ''gone'', namespace_u = ''tools'', timestamp_u = 2, count_u = 1\<rparr>,
                  \<lparr>name_u = ''ad-creative'', namespace_u = ''marketing'', timestamp_u = 1, count_u = 5\<rparr>]"

section \<open>Properties of the string operations\<close>

lemma length_toLowerCase: "length (toLowerCase s) = length s"
  by (simp add: toLowerCase_def)

lemma startsWith_length: "startsWith t q \<Longrightarrow> length q \<le> length t"
  by (induction t q rule: startsWith.induct) auto

lemma startsWith_same_length: "startsWith t q \<Longrightarrow> length q = length t \<Longrightarrow> t = q"
  by (induction t q rule: startsWith.induct) auto

lemma startsWith_shorter:
  assumes "startsWith t q" and "t \<noteq> q"
  shows "length q < length t"
  using assms startsWith_length [of t q] startsWith_same_length [of t q] by fastforce

lemma indexOf_Some_length: "indexOf t q = Some i \<Longrightarrow> i + length q \<le> length t"
proof (induction t arbitrary: i)
  case Nil
  then show ?case by (simp split: if_splits)
next
  case (Cons c t)
  show ?case
  proof (cases "startsWith (c # t) q")
    case True
    with Cons.prems have "i = 0" by simp
    with True show ?thesis using startsWith_length by fastforce
  next
    case False
    with Cons.prems obtain j where j: "indexOf t q = Some j" "i = Suc j"
      by (auto split: option.splits)
    from Cons.IH [OF j(1)] j(2) show ?thesis by simp
  qed
qed

lemma indexOf_Some_0: "indexOf t q = Some 0 \<Longrightarrow> startsWith t q"
  by (cases t) (auto split: if_splits option.splits)

lemma indexOf_shorter:
  assumes "indexOf t q = Some i" and "\<not> startsWith t q"
  shows "length q < length t"
proof -
  from assms indexOf_Some_0 [of t q] have "i \<noteq> 0" by auto
  with indexOf_Some_length [OF assms(1)] show ?thesis by simp
qed

lemma ratio_less_1: "n < m \<Longrightarrow> (of_nat n / of_nat m :: rat) < 1"
  by simp

lemma ratio_nonneg: "0 \<le> (of_nat n / of_nat m :: rat)"
  by simp

section \<open>The scorer: what each tier scores\<close>

lemma tier_Exact_score: "tierOf q t = Exact \<Longrightarrow> scoreMatch q t = 10000"
  by (auto simp: tierOf_def scoreMatch_def Let_def split: if_splits option.splits prod.splits)

lemma tier_NoMatch_score: "tierOf q t = NoMatch \<Longrightarrow> scoreMatch q t = 0"
  by (auto simp: tierOf_def scoreMatch_def Let_def split: if_splits option.splits prod.splits)

lemma tier_Prefix_score:
  assumes "tierOf q t = Prefix"
  shows "5000 \<le> scoreMatch q t \<and> scoreMatch q t < 5100"
proof -
  let ?lq = "toLowerCase q" and ?lt = "toLowerCase t"
  from assms have ne: "?lt \<noteq> ?lq" and sw: "startsWith ?lt ?lq"
    by (auto simp: tierOf_def Let_def split: if_splits option.splits prod.splits)
  define r :: rat where "r = of_nat (length ?lq) / of_nat (length ?lt)"
  from ne sw have sc: "scoreMatch q t = 5000 + r * 100"
    by (simp add: scoreMatch_def Let_def r_def)
  from startsWith_shorter [OF sw ne] have "r < 1" unfolding r_def by (rule ratio_less_1)
  moreover have "0 \<le> r" unfolding r_def by (rule ratio_nonneg)
  ultimately show ?thesis unfolding sc by linarith
qed

lemma tier_Substring_score:
  assumes "tierOf q t = Substring"
  shows "1000 \<le> scoreMatch q t \<and> scoreMatch q t < 1300"
proof -
  let ?lq = "toLowerCase q" and ?lt = "toLowerCase t"
  from assms obtain i where ne: "?lt \<noteq> ?lq" and sw: "\<not> startsWith ?lt ?lq"
    and ix: "indexOf ?lt ?lq = Some i"
    by (auto simp: tierOf_def Let_def split: if_splits option.splits prod.splits)
  define b :: rat
    where "b = (if i = 0 \<or> ?lt ! (i - 1) = CHR ''-'' \<or> ?lt ! (i - 1) = CHR '' '' then 200 else 0)"
  define r :: rat where "r = of_nat (length ?lq) / of_nat (length ?lt)"
  from ne sw ix have sc: "scoreMatch q t = 1000 + r * 100 + b"
    by (simp add: scoreMatch_def Let_def b_def r_def)
  have b: "0 \<le> b" "b \<le> 200" by (simp_all add: b_def)
  from indexOf_shorter [OF ix sw] have "r < 1" unfolding r_def by (rule ratio_less_1)
  moreover have "0 \<le> r" unfolding r_def by (rule ratio_nonneg)
  ultimately show ?thesis unfolding sc using b by linarith
qed

lemma tier_Subsequence_score:
  assumes "tierOf q t = Subsequence"
  shows "100 \<le> scoreMatch q t"
proof -
  let ?lq = "toLowerCase q" and ?lt = "toLowerCase t"
  obtain qi maxRun currentRun totalMatched
    where fl: "fuzzyLoop ?lq ?lt 0 0 0 0 = (qi, maxRun, currentRun, totalMatched)"
    by (cases "fuzzyLoop ?lq ?lt 0 0 0 0") auto
  define r :: rat where "r = of_nat totalMatched / of_nat (length ?lt)"
  from assms fl have sc: "scoreMatch q t = 100 + of_nat maxRun * 30 + r * 50"
    by (auto simp: tierOf_def scoreMatch_def Let_def r_def split: if_splits option.splits)
  have "0 \<le> r" unfolding r_def by (rule ratio_nonneg)
  moreover have "(0::rat) \<le> of_nat maxRun" by simp
  ultimately show ?thesis unfolding sc by linarith
qed

text \<open>
  No division of the source is by zero, so that the model's divisions are the source's:
  wherever \<open>scoreMatch\<close> divides by the length of the text the text is not empty, and
  \<open>filterSkills\<close> divides by the length of a description only when the description contains
  the query, which is not empty.
\<close>

lemma scoreMatch_divisor_positive:
  assumes "tierOf q t = Prefix \<or> tierOf q t = Substring \<or> tierOf q t = Subsequence"
  shows "0 < length (toLowerCase t)"
proof (rule ccontr)
  assume "\<not> 0 < length (toLowerCase t)"
  then have e: "toLowerCase t = []" by simp
  have "tierOf q t = Exact \<or> tierOf q t = NoMatch"
    by (cases "toLowerCase q") (simp_all add: tierOf_def e)
  with assms show False by auto
qed

lemma isSpace_lowerChar: "isSpace (lowerChar c) = isSpace c"
proof (cases "isUpper c")
  case False
  then show ?thesis by (simp add: lowerChar_def)
next
  case True
  define n where "n = (of_char c :: nat)"
  from True have r: "(65 \<le> n \<and> n \<le> 90) \<or> (192 \<le> n \<and> n \<le> 222)"
    by (auto simp: isUpper_def n_def Let_def)
  then have "n + 32 < 256" by auto
  then have "(of_char (char_of (n + 32)) :: nat) = n + 32"
    by (simp add: of_char_of)
  with True r show ?thesis
    by (auto simp: lowerChar_def isSpace_def n_def [symmetric])
qed

lemma dropWhile_isSpace_lower:
  "dropWhile isSpace (map lowerChar xs) = map lowerChar (dropWhile isSpace xs)"
  by (induction xs) (simp_all add: isSpace_lowerChar)

lemma trim_toLowerCase: "trim (toLowerCase s) = toLowerCase (trim s)"
proof -
  have "trim (map lowerChar s) = rev (dropWhile isSpace (rev (map lowerChar (dropWhile isSpace s))))"
    by (simp only: trim_def dropWhile_isSpace_lower)
  also have "\<dots> = rev (dropWhile isSpace (map lowerChar (rev (dropWhile isSpace s))))"
    by (simp only: rev_map)
  also have "\<dots> = rev (map lowerChar (dropWhile isSpace (rev (dropWhile isSpace s))))"
    by (simp only: dropWhile_isSpace_lower)
  also have "\<dots> = map lowerChar (trim s)"
    by (simp only: rev_map trim_def)
  finally show ?thesis
    by (simp only: toLowerCase_def)
qed

lemma lowerQuery_nonempty: "trim q \<noteq> [] \<Longrightarrow> trim (toLowerCase q) \<noteq> []"
  unfolding trim_toLowerCase by (simp add: toLowerCase_def)

lemma description_divisor_positive:
  assumes "trim q \<noteq> []" and "includes_str descLower (trim (toLowerCase q))"
  shows "0 < length descLower"
proof -
  from assms(2) obtain i where "indexOf descLower (trim (toLowerCase q)) = Some i"
    by (auto simp: includes_str_def)
  then have "i + length (trim (toLowerCase q)) \<le> length descLower"
    by (rule indexOf_Some_length)
  moreover from assms(1) have "0 < length (trim (toLowerCase q))"
    by (simp add: lowerQuery_nonempty)
  ultimately show ?thesis by linarith
qed

lemma tier_Exact_iff: "tierOf q t = Exact \<longleftrightarrow> toLowerCase q = toLowerCase t"
  by (auto simp: tierOf_def Let_def split: if_splits option.splits prod.splits)

text \<open>The upper tiers are ordered as the source's comment announces.\<close>

lemma upper_tiers_ordered:
  "tierOf q t1 = Exact \<Longrightarrow> tierOf q t2 = Prefix \<Longrightarrow> scoreMatch q t2 < scoreMatch q t1"
  "tierOf q t2 = Prefix \<Longrightarrow> tierOf q t3 = Substring \<Longrightarrow> scoreMatch q t3 < scoreMatch q t2"
  "tierOf q t3 = Substring \<Longrightarrow> tierOf q t5 = NoMatch \<Longrightarrow> scoreMatch q t5 < scoreMatch q t3"
  using tier_Exact_score [of q t1] tier_Prefix_score [of q t2] tier_Substring_score [of q t3]
    tier_NoMatch_score [of q t5]
  by simp_all

text \<open>
  The subsequence tier has no upper bound. For the query of \<open>n\<close> letters \<open>a\<close> and one
  \<open>b\<close>, the text that puts a \<open>c\<close> before the \<open>b\<close> is a pure subsequence match with a
  run of \<open>n\<close>: it scores \<open>100 + 30 n + 50 (n + 1) / (n + 2)\<close>, which is above 500 from
  \<open>n = 14\<close> on and above the exact score from \<open>n = 330\<close> on.
\<close>

lemma lowerChar_abc: "lowerChar CHR ''a'' = CHR ''a''" "lowerChar CHR ''b'' = CHR ''b''" "lowerChar CHR ''c'' = CHR ''c''"
  by (simp_all add: lowerChar_def isUpper_def)

lemma toLowerCase_run: "toLowerCase (replicate n CHR ''a'' @ s) = replicate n CHR ''a'' @ toLowerCase s"
  by (simp add: toLowerCase_def lowerChar_abc)

lemma startsWith_replicate: "startsWith (replicate k a @ x) (replicate k a @ y) = startsWith x y"
  by (induction k) auto

lemma fuzzyLoop_replicate:
  "qi + k \<le> length lq \<Longrightarrow> (\<forall>j<k. lq ! (qi + j) = a) \<Longrightarrow> currentRun \<le> maxRun \<Longrightarrow>
   fuzzyLoop lq (replicate k a @ rest) qi maxRun currentRun totalMatched =
   fuzzyLoop lq rest (qi + k) (max maxRun (currentRun + k)) (currentRun + k) (totalMatched + k)"
proof (induction k arbitrary: qi maxRun currentRun totalMatched)
  case 0
  then show ?case by simp
next
  case (Suc k)
  from Suc.prems have lt: "qi < length lq" and here: "lq ! qi = a" by auto
  from Suc.prems have rest: "qi + 1 + k \<le> length lq" "\<forall>j<k. lq ! (qi + 1 + j) = a"
    "currentRun + 1 \<le> max maxRun (currentRun + 1)"
    by auto
  have "fuzzyLoop lq (replicate (Suc k) a @ rest) qi maxRun currentRun totalMatched =
        fuzzyLoop lq (replicate k a @ rest) (qi + 1) (max maxRun (currentRun + 1)) (currentRun + 1) (totalMatched + 1)"
    using lt here by simp
  also have "\<dots> = fuzzyLoop lq rest (qi + 1 + k) (max (max maxRun (currentRun + 1)) (currentRun + 1 + k))
                      (currentRun + 1 + k) (totalMatched + 1 + k)"
    using rest by (rule Suc.IH)
  finally show ?case by (simp add: max_def)
qed

lemma indexOf_run_None:
  assumes "k \<le> n" and "1 \<le> n"
  shows "indexOf (replicate k CHR ''a'' @ ''cb'') (replicate n CHR ''a'' @ ''b'') = None"
  using assms(1)
proof (induction k)
  case 0
  from assms(2) obtain m where "n = Suc m" by (cases n) auto
  then show ?case by simp
next
  case (Suc k)
  then obtain m where n: "n = Suc k + m" by (metis le_iff_add)
  have "startsWith (replicate (Suc k) CHR ''a'' @ ''cb'') (replicate (Suc k) CHR ''a'' @ (replicate m CHR ''a'' @ ''b''))
          = startsWith ''cb'' (replicate m CHR ''a'' @ ''b'')"
    by (rule startsWith_replicate)
  also have "\<dots> = False" by (cases m) auto
  finally have "\<not> startsWith (replicate (Suc k) CHR ''a'' @ ''cb'') (replicate n CHR ''a'' @ ''b'')"
    by (simp add: n replicate_add)
  moreover have "indexOf (replicate k CHR ''a'' @ ''cb'') (replicate n CHR ''a'' @ ''b'') = None"
    using Suc by simp
  ultimately show ?case by simp
qed

lemma run_fuzzy:
  "fuzzyLoop (replicate n CHR ''a'' @ ''b'') (replicate n CHR ''a'' @ ''cb'') 0 0 0 0 = (n + 1, max n 1, 1, n + 1)"
proof -
  have "fuzzyLoop (replicate n CHR ''a'' @ ''b'') (replicate n CHR ''a'' @ ''cb'') 0 0 0 0
        = fuzzyLoop (replicate n CHR ''a'' @ ''b'') ''cb'' (0 + n) (max 0 (0 + n)) (0 + n) (0 + n)"
    by (rule fuzzyLoop_replicate) (simp_all add: nth_append)
  also have "\<dots> = (n + 1, max n 1, 1, n + 1)"
    by (simp add: nth_append)
  finally show ?thesis .
qed

lemma subsequence_score_unbounded:
  assumes "2 \<le> n"
  shows "tierOf (replicate n CHR ''a'' @ ''b'') (replicate n CHR ''a'' @ ''cb'') = Subsequence"
    and "scoreMatch (replicate n CHR ''a'' @ ''b'') (replicate n CHR ''a'' @ ''cb'')
           = 100 + of_nat n * 30 + (of_nat (n + 1) / of_nat (n + 2)) * 50"
proof -
  let ?q = "replicate n CHR ''a'' @ ''b''" and ?t = "replicate n CHR ''a'' @ ''cb''"
  have lq: "toLowerCase ?q = ?q" and lt: "toLowerCase ?t = ?t"
    by (simp_all add: toLowerCase_run) (simp_all add: toLowerCase_def lowerChar_abc)
  have ne: "?t \<noteq> ?q" by simp
  have sw: "\<not> startsWith ?t ?q"
    using startsWith_replicate [of n "CHR ''a''" "''cb''" "''b''"] by simp
  have ix: "indexOf ?t ?q = None"
    using assms by (intro indexOf_run_None) simp_all
  have c: "ceil04 (n + 1) \<le> n"
    using assms by (simp add: ceil04_def)
  have m: "max n 1 = n" using assms by simp
  show "tierOf ?q ?t = Subsequence"
    using ne sw ix c assms by (simp add: tierOf_def lq lt run_fuzzy m)
  show "scoreMatch ?q ?t = 100 + of_nat n * 30 + (of_nat (n + 1) / of_nat (n + 2)) * 50"
    using ne sw ix c assms by (simp add: scoreMatch_def lq lt run_fuzzy m)
qed

lemma subsequence_exceeds_documented_range:
  "tierOf (replicate 14 CHR ''a'' @ ''b'') (replicate 14 CHR ''a'' @ ''cb'') = Subsequence \<and>
   500 < scoreMatch (replicate 14 CHR ''a'' @ ''b'') (replicate 14 CHR ''a'' @ ''cb'')"
  using subsequence_score_unbounded [of 14] by simp

lemma subsequence_exceeds_exact:
  "tierOf (replicate 330 CHR ''a'' @ ''b'') (replicate 330 CHR ''a'' @ ''cb'') = Subsequence \<and>
   10000 < scoreMatch (replicate 330 CHR ''a'' @ ''b'') (replicate 330 CHR ''a'' @ ''cb'')"
  using subsequence_score_unbounded [of 330] by simp

text \<open>
  C1. Monotonic tiering asks that a text of the substring tier outscores every text of the
  subsequence tier for the same query. The run bonus \<open>maxRun * 30\<close> of the subsequence
  tier has no cap, so the source's own bound "1-500" for that tier does not hold
  (\<open>subsequence_exceeds_documented_range\<close>), and the tier reaches into the tiers above: for the
  query of 34 letters \<open>a\<close> and one \<open>b\<close>, the text that puts a \<open>c\<close> before the \<open>b\<close> is a pure
  subsequence match and scores 21035/18 (about 1168.6), while the text that puts an \<open>x\<close>
  in front of the query is a pure substring match and scores 9875/9 (about 1097.2).
\<close>

theorem subsequence_outscores_substring:
  "tierOf ''aaaaaaaaaaaaaaaaaaaaaaaaaaaaaaaaaab'' ''aaaaaaaaaaaaaaaaaaaaaaaaaaaaaaaaaacb'' = Subsequence \<and>
   tierOf ''aaaaaaaaaaaaaaaaaaaaaaaaaaaaaaaaaab'' ''xaaaaaaaaaaaaaaaaaaaaaaaaaaaaaaaaaab'' = Substring \<and>
   scoreMatch ''aaaaaaaaaaaaaaaaaaaaaaaaaaaaaaaaaab'' ''aaaaaaaaaaaaaaaaaaaaaaaaaaaaaaaaaacb'' = 21035 / 18 \<and>
   scoreMatch ''aaaaaaaaaaaaaaaaaaaaaaaaaaaaaaaaaab'' ''xaaaaaaaaaaaaaaaaaaaaaaaaaaaaaaaaaab'' = 9875 / 9 \<and>
   scoreMatch ''aaaaaaaaaaaaaaaaaaaaaaaaaaaaaaaaaab'' ''xaaaaaaaaaaaaaaaaaaaaaaaaaaaaaaaaaab''
     < scoreMatch ''aaaaaaaaaaaaaaaaaaaaaaaaaaaaaaaaaab'' ''aaaaaaaaaaaaaaaaaaaaaaaaaaaaaaaaaacb''"
  by code_simp

text \<open>
  C2 as stated fails: the scorer compares lowercased strings, so two different strings
  that differ only in case score 10000.
\<close>

theorem different_strings_score_maximum:
  "''A'' \<noteq> ''a'' \<and> scoreMatch ''A'' ''a'' = 10000"
  by code_simp

text \<open>
  C2, amended. \<open>scoreMatch t t\<close> is 10000 for every string \<open>t\<close>, and so is the score of
  every pair that is equal after lowercasing; every pair that differs after lowercasing
  and lands in the prefix, the substring or the no-match tier scores strictly below 10000.
  Nothing is said here about the subsequence tier, whose score has no bound
  (\<open>subsequence_exceeds_exact\<close>).
\<close>

theorem scoreMatch_maximum:
  "scoreMatch t t = 10000 \<and>
   (toLowerCase q = toLowerCase t' \<longrightarrow> scoreMatch q t' = 10000) \<and>
   (toLowerCase q \<noteq> toLowerCase t' \<and> tierOf q t' \<noteq> Subsequence \<longrightarrow> scoreMatch q t' < 10000)"
proof -
  have "scoreMatch q t' < 10000"
    if ne: "toLowerCase q \<noteq> toLowerCase t'" and ns: "tierOf q t' \<noteq> Subsequence"
  proof (cases "tierOf q t'")
    case Exact
    with ne show ?thesis by (simp add: tier_Exact_iff)
  next
    case Prefix
    then show ?thesis using tier_Prefix_score [of q t'] by simp
  next
    case Substring
    then show ?thesis using tier_Substring_score [of q t'] by simp
  next
    case Subsequence
    with ns show ?thesis by simp
  next
    case NoMatch
    then show ?thesis using tier_NoMatch_score [of q t'] by simp
  qed
  moreover have "scoreMatch t t = 10000"
    by (simp add: scoreMatch_def)
  moreover have "scoreMatch q t' = 10000" if "toLowerCase q = toLowerCase t'"
    using that by (simp add: scoreMatch_def)
  ultimately show ?thesis by blast
qed

theorem scoreMatch_maximum_witness:
  "scoreMatch ''fizzy-cli'' ''fizzy-cli'' = 10000 \<and>
   toLowerCase ''Fizzy-CLI'' = toLowerCase ''fizzy-cli'' \<and>
   scoreMatch ''Fizzy-CLI'' ''fizzy-cli'' = 10000 \<and>
   toLowerCase ''fizzy'' \<noteq> toLowerCase ''fizzy-cli'' \<and>
   tierOf ''fizzy'' ''fizzy-cli'' \<noteq> Subsequence \<and>
   scoreMatch ''fizzy'' ''fizzy-cli'' < 10000"
proof -
  have h1: "toLowerCase ''Fizzy-CLI'' = toLowerCase ''fizzy-cli''"
    by code_simp
  have h2: "toLowerCase ''fizzy'' \<noteq> toLowerCase ''fizzy-cli'' \<and>
            tierOf ''fizzy'' ''fizzy-cli'' \<noteq> Subsequence"
    by code_simp
  from scoreMatch_maximum [of "''fizzy-cli''" "''Fizzy-CLI''" "''fizzy-cli''"] h1
  have "scoreMatch ''fizzy-cli'' ''fizzy-cli'' = 10000 \<and> scoreMatch ''Fizzy-CLI'' ''fizzy-cli'' = 10000"
    by blast
  moreover from scoreMatch_maximum [of "''fizzy-cli''" "''fizzy''" "''fizzy-cli''"] h2
  have "scoreMatch ''fizzy'' ''fizzy-cli'' < 10000"
    by blast
  ultimately show ?thesis using h1 h2 by blast
qed

section \<open>Properties of the array operations\<close>

lemma mset_insertBy: "mset (insertBy cmp x xs) = add_mset x (mset xs)"
  by (induction xs) auto

lemma mset_sortBy: "mset (sortBy cmp xs) = mset xs"
  by (induction xs) (auto simp: sortBy_def mset_insertBy)

lemma set_sortBy: "set (sortBy cmp xs) = set xs"
  using mset_sortBy [of cmp xs] by (metis set_mset_mset)

lemma set_insertBy: "set (insertBy cmp x xs) = insert x (set xs)"
  using mset_insertBy [of cmp x xs] by (metis set_mset_mset set_mset_add_mset_insert)

lemma length_sortBy: "length (sortBy cmp xs) = length xs"
  using mset_sortBy [of cmp xs] by (metis size_mset)

lemma sortBy_Cons: "sortBy cmp (x # xs) = insertBy cmp x (sortBy cmp xs)"
  by (simp add: sortBy_def)

lemma sortBy_Nil: "sortBy cmp [] = []"
  by (simp add: sortBy_def)

lemma sorted_insertBy:
  assumes "sorted_wrt (\<lambda>a b. cmp a b \<le> 0) ys"
    and total: "\<And>y. y \<in> set ys \<Longrightarrow> cmp x y \<le> 0 \<or> cmp y x \<le> 0"
    and trans: "\<And>y z. y \<in> set ys \<Longrightarrow> z \<in> set ys \<Longrightarrow> cmp x y \<le> 0 \<Longrightarrow> cmp y z \<le> 0 \<Longrightarrow> cmp x z \<le> 0"
  shows "sorted_wrt (\<lambda>a b. cmp a b \<le> 0) (insertBy cmp x ys)"
  using assms
proof (induction ys)
  case Nil
  then show ?case by simp
next
  case (Cons y ys)
  show ?case
  proof (cases "cmp x y \<le> 0")
    case True
    have "cmp x z \<le> 0" if "z \<in> set ys" for z
      using Cons.prems(1) Cons.prems(3) [of y z] True that by auto
    with True Cons.prems(1) show ?thesis by auto
  next
    case False
    have yx: "cmp y x \<le> 0" using Cons.prems(2) [of y] False by auto
    have "sorted_wrt (\<lambda>a b. cmp a b \<le> 0) (insertBy cmp x ys)"
      using Cons.IH Cons.prems by auto
    with False yx Cons.prems(1) show ?thesis by (auto simp: set_insertBy)
  qed
qed

lemma sorted_sortBy:
  assumes total: "sorted_wrt (\<lambda>x y. cmp x y \<le> 0 \<or> cmp y x \<le> 0) xs"
    and trans: "\<And>x y z. x \<in> set xs \<Longrightarrow> y \<in> set xs \<Longrightarrow> z \<in> set xs \<Longrightarrow>
                  cmp x y \<le> 0 \<Longrightarrow> cmp y z \<le> 0 \<Longrightarrow> cmp x z \<le> 0"
  shows "sorted_wrt (\<lambda>a b. cmp a b \<le> 0) (sortBy cmp xs)"
  using assms
proof (induction xs)
  case Nil
  then show ?case by (simp add: sortBy_Nil)
next
  case (Cons x xs)
  have IH: "sorted_wrt (\<lambda>a b. cmp a b \<le> 0) (sortBy cmp xs)"
    using Cons.IH Cons.prems by auto
  show ?case unfolding sortBy_Cons
  proof (rule sorted_insertBy [OF IH])
    fix y assume "y \<in> set (sortBy cmp xs)"
    then show "cmp x y \<le> 0 \<or> cmp y x \<le> 0" using Cons.prems(1) by (auto simp: set_sortBy)
  next
    fix y z assume "y \<in> set (sortBy cmp xs)" "z \<in> set (sortBy cmp xs)" "cmp x y \<le> 0" "cmp y z \<le> 0"
    then show "cmp x z \<le> 0" using Cons.prems(2) [of x y z] by (auto simp: set_sortBy)
  qed
qed

lemma insertBy_insort_key:
  "insertBy (\<lambda>a b. f b - f a) x xs = insort_key (\<lambda>a. - f a) x xs"
  by (induction xs) auto

lemma sortBy_sort_key: "sortBy (\<lambda>a b. f b - f a) xs = sort_key (\<lambda>a. - f a) xs"
  by (induction xs) (auto simp: sortBy_def insertBy_insort_key)

lemma insort_scored:
  "insort_key (\<lambda>p. - snd p) (s, score s) (map (\<lambda>s. (s, score s)) ys) =
     map (\<lambda>s. (s, score s)) (insort_key (\<lambda>s. - score s) s ys)"
  by (induction ys) auto

lemma sort_key_scored:
  "sort_key (\<lambda>p. - snd p) (map (\<lambda>s. (s, score s)) ys) = map (\<lambda>s. (s, score s)) (sort_key (\<lambda>s. - score s) ys)"
proof (induction ys)
  case Nil
  then show ?case by simp
next
  case (Cons y ys)
  then show ?case by (simp add: insort_scored)
qed

lemma rank_sort_key: "rank score skills = sort_key (\<lambda>s. - score s) (filter (\<lambda>s. 0 < score s) skills)"
proof -
  have "filter (\<lambda>item. snd item > 0) (map (\<lambda>skill. (skill, score skill)) skills)
          = map (\<lambda>s. (s, score s)) (filter (\<lambda>s. 0 < score s) skills)"
    by (induction skills) auto
  then show ?thesis
    by (simp add: rank_def sortBy_sort_key [of snd] sort_key_scored o_def)
qed

lemma mset_rank: "mset (rank score skills) = mset (filter (\<lambda>s. 0 < score s) skills)"
  by (simp add: rank_sort_key)

lemma sorted_rank: "sorted_wrt (\<lambda>a b. score b \<le> score a) (rank score skills)"
proof -
  have "sorted (map (\<lambda>s. - score s) (rank score skills))"
    by (simp add: rank_sort_key)
  then show ?thesis by (simp add: sorted_map)
qed

lemma mset_rank_subset: "mset (rank score skills) \<subseteq># mset skills"
  by (simp add: mset_rank)

lemma mset_filter_subset: "mset (filter P xs) \<subseteq># mset xs"
  by simp

text \<open>Every branch of \<open>filterSkills\<close> returns the catalog, a filter of it, or a ranking of a filter of it.\<close>

lemma mset_filterSkills: "mset (filterSkills skills q) \<subseteq># mset skills"
  unfolding filterSkills_def Let_def
  by (auto intro: subset_mset.order_trans [OF mset_rank_subset])

lemma distinct_submset:
  assumes sub: "mset ys \<subseteq># mset xs" and d: "distinct xs"
  shows "distinct ys"
proof -
  have "count (mset ys) a = (if a \<in> set ys then 1 else 0)" for a
  proof (cases "a \<in> set ys")
    case True
    then have "0 < count (mset ys) a" by simp
    moreover have "count (mset ys) a \<le> count (mset xs) a"
      using sub by (rule mset_subset_eq_count)
    moreover have "count (mset xs) a \<le> 1"
      using d by (simp add: distinct_count_atmost_1)
    ultimately have "count (mset ys) a = 1" by linarith
    with True show ?thesis by simp
  next
    case False
    then show ?thesis by (simp add: count_mset_0_iff)
  qed
  then show ?thesis by (simp add: distinct_count_atmost_1)
qed

section \<open>The match engine: what \<open>filterSkills\<close> returns\<close>

text \<open>
  C10. The filter never invents or duplicates items: every element of the output is an
  element of the input, no skill occurs more often in the output than in the input, and a
  catalog without duplicates gives an output without duplicates.
\<close>

theorem filterSkills_no_invention:
  "set (filterSkills skills q) \<subseteq> set skills \<and>
   (\<forall>s. count (mset (filterSkills skills q)) s \<le> count (mset skills) s) \<and>
   (distinct skills \<longrightarrow> distinct (filterSkills skills q))"
proof -
  note sub = mset_filterSkills [of skills q]
  from sub have "set (filterSkills skills q) \<subseteq> set skills"
    using set_mset_mono by fastforce
  moreover from sub have "\<forall>s. count (mset (filterSkills skills q)) s \<le> count (mset skills) s"
    by (simp add: mset_subset_eq_count)
  moreover from sub have "distinct skills \<longrightarrow> distinct (filterSkills skills q)"
    using distinct_submset by blast
  ultimately show ?thesis by blast
qed

theorem filterSkills_no_invention_witness:
  "distinct testSkills \<and> distinct (filterSkills testSkills ''f'') \<and>
   set (filterSkills testSkills ''f'') \<subseteq> set testSkills"
proof -
  have d: "distinct testSkills" by code_simp
  with filterSkills_no_invention [of testSkills "''f''"] show ?thesis by blast
qed

section \<open>The match engine: the branches of \<open>filterSkills\<close>\<close>

lemma startsWith_Cons_single: "startsWith (a # t) [c] = (a = c)"
  by simp

lemma indexOf_char_split:
  "c \<notin> set a \<Longrightarrow> indexOf (a @ c # r) [c] = Some (length a)"
  by (induction a) auto

lemma indexOf_char_None: "c \<notin> set s \<Longrightarrow> indexOf s [c] = None"
  by (induction s) auto

lemma ne_Nil_if_in_set: "x \<in> set xs \<Longrightarrow> xs \<noteq> []"
  by auto

lemma in_set_dropWhile: "c \<in> set s \<Longrightarrow> \<not> P c \<Longrightarrow> c \<in> set (dropWhile P s)"
  by (induction s) auto

lemma trim_nonempty:
  assumes "c \<in> set s" and "\<not> isSpace c"
  shows "trim s \<noteq> []"
proof -
  from assms have "c \<in> set (dropWhile isSpace s)"
    by (rule in_set_dropWhile)
  then have "c \<in> set (rev (dropWhile isSpace s))"
    by simp
  from this assms(2) have "c \<in> set (dropWhile isSpace (rev (dropWhile isSpace s)))"
    by (rule in_set_dropWhile)
  then have "dropWhile isSpace (rev (dropWhile isSpace s)) \<noteq> []"
    by (rule ne_Nil_if_in_set)
  then show ?thesis
    unfolding trim_def by simp
qed

lemma colon_not_space: "\<not> isSpace CHR '':''"
  by (simp add: isSpace_def)

lemma filterSkills_blank: "trim q = [] \<Longrightarrow> filterSkills skills q = skills"
  by (simp add: filterSkills_def)

lemma filterSkills_colon:
  assumes "c \<notin> set nsPart" "c = CHR '':''" and "nsPart \<noteq> []"
  shows "filterSkills skills (nsPart @ c # rest) =
     (let nsSkills = filter (\<lambda>s. startsWith (toLowerCase (namespace s)) (toLowerCase nsPart)) skills
      in if trim rest = [] then nsSkills else rank (colonScore (trim rest)) nsSkills)"
proof -
  let ?q = "nsPart @ c # rest"
  have ix: "indexOf ?q '':'' = Some (length nsPart)"
    using assms(1,2) indexOf_char_split [of c nsPart rest] by simp
  have ne: "trim ?q \<noteq> []"
    using trim_nonempty [of c ?q] colon_not_space assms(2) by simp
  from assms(3) have pos: "0 < length nsPart" by simp
  show ?thesis
    using ne pos by (simp add: filterSkills_def ix Let_def)
qed

lemma filterSkills_exact_ns:
  assumes "trim q \<noteq> []"
    and "indexOf q '':'' = None \<or> indexOf q '':'' = Some 0"
    and "filter (\<lambda>s. toLowerCase (namespace s) = trim (toLowerCase q)) skills \<noteq> []"
  shows "filterSkills skills q = filter (\<lambda>s. toLowerCase (namespace s) = trim (toLowerCase q)) skills"
  using assms by (auto simp: filterSkills_def Let_def)

lemma filterSkills_plain:
  assumes "trim q \<noteq> []"
    and "indexOf q '':'' = None \<or> indexOf q '':'' = Some 0"
    and "filter (\<lambda>s. toLowerCase (namespace s) = trim (toLowerCase q)) skills = []"
    and "length (filter (\<lambda>ns. startsWith ns (trim (toLowerCase q)))
                   (newSet (map (\<lambda>s. toLowerCase (namespace s)) skills))) \<noteq> 1"
  shows "filterSkills skills q = rank (plainScore (trim (toLowerCase q))) skills"
  using assms by (auto simp: filterSkills_def Let_def)

text \<open>A query that starts with the colon goes through the branches of a colon-free query.\<close>

lemma filterSkills_colon_first:
  "filterSkills skills (CHR '':'' # rest) =
    (let lowerQuery = trim (toLowerCase (CHR '':'' # rest));
         exactNsMatch = filter (\<lambda>s. toLowerCase (namespace s) = lowerQuery) skills;
         nsMatches = filter (\<lambda>ns. startsWith ns lowerQuery)
                       (newSet (map (\<lambda>s. toLowerCase (namespace s)) skills))
     in if length exactNsMatch > 0 then exactNsMatch
        else if length nsMatches = 1
        then filter (\<lambda>s. toLowerCase (namespace s) = nsMatches ! 0) skills
        else rank (plainScore lowerQuery) skills)"
proof -
  have ne: "trim (CHR '':'' # rest) \<noteq> []"
    using trim_nonempty [of "CHR '':''" "CHR '':'' # rest"] colon_not_space by simp
  have ix: "indexOf (CHR '':'' # rest) '':'' = Some 0"
    by simp
  show ?thesis
    using ne by (simp add: filterSkills_def ix Let_def)
qed

text \<open>
  C3 as stated fails for a query whose first character is the colon: the source takes the
  colon branch only when the colon's index is above zero. The skill \<open>adTool\<close> lies in
  the restricted set (every namespace starts with the empty string) and its score for the
  name part \<open>ad\<close> is positive, but the query \<open>:ad\<close> is ranked as a plain query and does
  not find it.
\<close>

theorem colon_first_not_scoped:
  "CHR '':'' \<in> set '':ad'' \<and>
   startsWith (toLowerCase (namespace adTool)) (toLowerCase []) \<and>
   0 < max (scoreMatch ''ad'' (name adTool)) (3 / 10 * scoreMatch ''ad'' (description adTool)) \<and>
   filterSkills [adTool] '':ad'' = []"
proof -
  have a1: "trim '':ad'' \<noteq> []"
    by code_simp
  have a2: "indexOf '':ad'' '':'' = None \<or> indexOf '':ad'' '':'' = Some 0"
    by code_simp
  have a3: "filter (\<lambda>s. toLowerCase (namespace s) = trim (toLowerCase '':ad'')) [adTool] = []"
    by code_simp
  have a4: "length (filter (\<lambda>ns. startsWith ns (trim (toLowerCase '':ad'')))
                     (newSet (map (\<lambda>s. toLowerCase (namespace s)) [adTool]))) \<noteq> 1"
    by code_simp
  have "filterSkills [adTool] '':ad'' = rank (plainScore (trim (toLowerCase '':ad''))) [adTool]"
    using a1 a2 a3 a4 by (rule filterSkills_plain)
  also have "\<dots> = []"
    by code_simp
  finally have "filterSkills [adTool] '':ad'' = []" .
  moreover have "CHR '':'' \<in> set '':ad''"
    by simp
  moreover have "startsWith (toLowerCase (namespace adTool)) (toLowerCase [])"
    by code_simp
  moreover have "0 < max (scoreMatch ''ad'' (name adTool)) (3 / 10 * scoreMatch ''ad'' (description adTool))"
    by code_simp
  ultimately show ?thesis by blast
qed

text \<open>
  C3, amended. For every catalog and every query \<open>nsPart:rest\<close> whose part before the
  first colon is not empty, with \<open>namePart\<close> the trimmed \<open>rest\<close>: \<open>filterSkills\<close> restricts
  the catalog to the skills whose lowercased namespace starts with the lowercased
  \<open>nsPart\<close>; it returns that restricted list as it is when \<open>namePart\<close> is empty, and
  otherwise exactly the restricted skills whose score
  \<open>max(scoreMatch(namePart, name), 0.3 * scoreMatch(namePart, description))\<close> is positive,
  in descending order of that score. The witness is the example of the claim: the catalog
  of the tests and the query \<open>marketing:ad\<close> give \<open>[ad-creative]\<close>.
\<close>

theorem colon_scoped_filtering:
  assumes "q = nsPart @ '':'' @ rest" and "CHR '':'' \<notin> set nsPart" and "nsPart \<noteq> []"
    and "namePart = trim rest"
    and "restricted = filter (\<lambda>s. startsWith (toLowerCase (namespace s)) (toLowerCase nsPart)) skills"
    and "score = (\<lambda>s. max (scoreMatch namePart (name s)) (3 / 10 * scoreMatch namePart (description s)))"
  shows "(namePart = [] \<longrightarrow> filterSkills skills q = restricted) \<and>
         (namePart \<noteq> [] \<longrightarrow>
            mset (filterSkills skills q) = mset (filter (\<lambda>s. 0 < score s) restricted) \<and>
            sorted_wrt (\<lambda>a b. score b \<le> score a) (filterSkills skills q))"
proof -
  have sc: "colonScore namePart = score"
    by (rule ext) (simp add: colonScore_def assms(6) mult.commute)
  have "filterSkills skills q = (if namePart = [] then restricted else rank score restricted)"
    using filterSkills_colon [OF assms(2) refl assms(3), of skills rest]
    by (simp add: assms(1,4,5) Let_def sc [unfolded assms(4)])
  then show ?thesis
    by (simp add: mset_rank sorted_rank)
qed

theorem colon_scoped_filtering_witness:
  "filterSkills testSkills ''marketing:ad'' = [makeSkill ''ad-creative'' ''marketing'']"
proof -
  let ?score = "\<lambda>s::Skill. max (scoreMatch ''ad'' (name s)) (3 / 10 * scoreMatch ''ad'' (description s))"
  let ?restricted = "filter (\<lambda>s. startsWith (toLowerCase (namespace s)) (toLowerCase ''marketing'')) testSkills"
  have q: "''marketing:ad'' = ''marketing'' @ '':'' @ ''ad''" by simp
  have nc: "CHR '':'' \<notin> set ''marketing''" by simp
  have ne: "''marketing'' \<noteq> []" by simp
  have np: "''ad'' = trim ''ad''" by code_simp
  have r: "filter (\<lambda>s. 0 < ?score s) ?restricted = [makeSkill ''ad-creative'' ''marketing'']"
    by code_simp
  from colon_scoped_filtering [OF q nc ne np refl refl, of testSkills]
  have "mset (filterSkills testSkills ''marketing:ad'') = mset (filter (\<lambda>s. 0 < ?score s) ?restricted)"
    by simp
  also have "\<dots> = {#makeSkill ''ad-creative'' ''marketing''#}"
    unfolding r by simp
  finally show ?thesis by simp
qed

text \<open>
  C4 as stated fails when the query carries surrounding white space: the source compares
  the namespaces with the trimmed query. Here the namespace of the first skill equals the
  query \<open>x \<close> (with its blank), and the result is the other skill.
\<close>

theorem exact_ns_untrimmed:
  "trim ''x '' \<noteq> [] \<and> CHR '':'' \<notin> set ''x '' \<and>
   toLowerCase (namespace (makeSkill ''a'' ''x '')) = toLowerCase ''x '' \<and>
   filterSkills [makeSkill ''a'' ''x '', makeSkill ''b'' ''x''] ''x '' = [makeSkill ''b'' ''x'']"
proof -
  have ne: "trim ''x '' \<noteq> []" by code_simp
  have nc: "CHR '':'' \<notin> set ''x ''" by simp
  have ix: "indexOf ''x '' '':'' = None \<or> indexOf ''x '' '':'' = Some 0"
    by code_simp
  have f: "filter (\<lambda>s. toLowerCase (namespace s) = trim (toLowerCase ''x ''))
          [makeSkill ''a'' ''x '', makeSkill ''b'' ''x''] = [makeSkill ''b'' ''x'']"
    by code_simp
  then have "filter (\<lambda>s. toLowerCase (namespace s) = trim (toLowerCase ''x ''))
          [makeSkill ''a'' ''x '', makeSkill ''b'' ''x''] \<noteq> []"
    by simp
  from filterSkills_exact_ns [OF ne ix this]
  have "filterSkills [makeSkill ''a'' ''x '', makeSkill ''b'' ''x''] ''x '' = [makeSkill ''b'' ''x'']"
    unfolding f .
  moreover have "toLowerCase (namespace (makeSkill ''a'' ''x '')) = toLowerCase ''x ''"
    by code_simp
  ultimately show ?thesis using ne nc by blast
qed

text \<open>
  C4, amended. For every catalog and every colon-free query that is not blank: if the
  lowercased namespace of some skill equals the lowercased, trimmed query, then
  \<open>filterSkills\<close> returns exactly the skills of which that holds, in catalog order,
  whatever names and descriptions match elsewhere. The witness is the example of the claim:
  the catalog of the tests and the query \<open>search\<close> give \<open>[brave-search]\<close>.
\<close>

theorem exact_namespace_priority:
  assumes ne: "trim q \<noteq> []" and nc: "CHR '':'' \<notin> set q"
    and ex: "\<exists>s\<in>set skills. toLowerCase (namespace s) = trim (toLowerCase q)"
  shows "filterSkills skills q = filter (\<lambda>s. toLowerCase (namespace s) = trim (toLowerCase q)) skills"
proof -
  let ?exactNsMatch = "filter (\<lambda>s. toLowerCase (namespace s) = trim (toLowerCase q)) skills"
  from nc have ix: "indexOf q '':'' = None"
    by (simp add: indexOf_char_None)
  from ex obtain s where "s \<in> set skills" and "toLowerCase (namespace s) = trim (toLowerCase q)"
    by blast
  then have "s \<in> set ?exactNsMatch"
    by simp
  then have "0 < length ?exactNsMatch"
    by (rule length_pos_if_in_set)
  with ne ix show ?thesis
    by (simp add: filterSkills_def Let_def)
qed

theorem exact_namespace_priority_witness:
  "filterSkills testSkills ''search'' = [makeSkill ''brave-search'' ''search'']"
proof -
  have ne: "trim ''search'' \<noteq> []" by code_simp
  have nc: "CHR '':'' \<notin> set ''search''" by simp
  have m: "toLowerCase (namespace (makeSkill ''brave-search'' ''search'')) = trim (toLowerCase ''search'')"
    by code_simp
  have ex: "\<exists>s\<in>set testSkills. toLowerCase (namespace s) = trim (toLowerCase ''search'')"
    using m by (auto simp: testSkills_def)
  have "filter (\<lambda>s. toLowerCase (namespace s) = trim (toLowerCase ''search'')) testSkills
          = [makeSkill ''brave-search'' ''search'']"
    by code_simp
  with exact_namespace_priority [OF ne nc ex] show ?thesis by simp
qed

section \<open>The selection state machine: the cursor\<close>

lemma findIndex_Some: "findIndex p xs = Some i \<Longrightarrow> i < length xs \<and> p (xs ! i)"
proof (induction xs arbitrary: i)
  case Nil
  then show ?case by simp
next
  case (Cons x xs)
  show ?case
  proof (cases "p x")
    case True
    with Cons.prems show ?thesis by simp
  next
    case False
    with Cons.prems obtain j where "findIndex p xs = Some j" and "i = Suc j"
      by (auto split: option.splits)
    with Cons.IH [of j] show ?thesis by simp
  qed
qed

lemma findIndex_None: "findIndex p xs = None \<Longrightarrow> \<not> list_ex p xs"
  by (induction xs) (auto split: if_splits option.splits)

lemma scanLoop_Some:
  "scanLoop items idx d = Some j \<Longrightarrow> 0 \<le> j \<and> j < int (length items) \<and> isSkill (items ! nat j)"
proof (induction items idx d rule: scanLoop.induct)
  case (1 items idx d)
  show ?case
  proof (cases "idx \<ge> 0 \<and> idx < int (length items)")
    case inside: True
    show ?thesis
    proof (cases "isSkill (items ! nat idx)")
      case True
      with inside "1.prems" show ?thesis by simp
    next
      case False
      with inside "1.prems" have "scanLoop items (idx + delta d) d = Some j" by simp
      with "1.IH" inside False show ?thesis by simp
    qed
  next
    case False
    with "1.prems" show ?thesis by simp
  qed
qed

lemma scanLoop_Minus_None:
  "scanLoop items idx d = None \<Longrightarrow> d = Minus \<Longrightarrow> idx < int (length items) \<Longrightarrow>
     0 \<le> k \<Longrightarrow> k \<le> idx \<Longrightarrow> \<not> isSkill (items ! nat k)"
proof (induction items idx d rule: scanLoop.induct)
  case (1 items idx d)
  from "1.prems" have inside: "idx \<ge> 0 \<and> idx < int (length items)" by simp
  with "1.prems"(1) have ns: "\<not> isSkill (items ! nat idx)"
    by (auto split: if_splits)
  show ?case
  proof (cases "k = idx")
    case True
    with ns show ?thesis by simp
  next
    case False
    from inside ns "1.prems"(1) have "scanLoop items (idx + delta d) d = None" by simp
    moreover from False "1.prems" have "k \<le> idx + delta d" by simp
    ultimately show ?thesis using "1.IH" inside ns "1.prems" by simp
  qed
qed

lemma scanLoop_last_None:
  assumes "scanLoop items (int (length items) - 1) Minus = None"
  shows "\<not> list_ex isSkill items"
proof
  assume "list_ex isSkill items"
  then obtain k where k: "k < length items" "isSkill (items ! k)"
    by (auto simp: list_ex_iff in_set_conv_nth)
  from scanLoop_Minus_None [OF assms refl, of "int k"] k show False by simp
qed

lemma elemAt_skill_ex: "elemAt items j = Some item \<Longrightarrow> isSkill item \<Longrightarrow> list_ex isSkill items"
  by (auto simp: elemAt_def list_ex_iff split: if_splits)

lemma pointsOk_index:
  assumes "0 \<le> j" "j < int (length items)" "isSkill (items ! nat j)"
  shows "pointsOk items j"
proof -
  from assms have e: "elemAt items j = Some (items ! nat j)" by (simp add: elemAt_def)
  from e assms(3) have "list_ex isSkill items" by (rule elemAt_skill_ex)
  with e assms(3) show ?thesis by (simp add: pointsOk_def)
qed

lemma pointsOk_first:
  "pointsOk items (case firstSkillIndex items of Some first \<Rightarrow> int first | None \<Rightarrow> 0)"
proof (cases "firstSkillIndex items")
  case None
  then have "\<not> list_ex isSkill items" unfolding firstSkillIndex_def by (rule findIndex_None)
  with None show ?thesis by (simp add: pointsOk_def)
next
  case (Some f)
  then have "f < length items \<and> isSkill (items ! f)"
    unfolding firstSkillIndex_def by (rule findIndex_Some)
  then have "pointsOk items (int f)" by (intro pointsOk_index) simp_all
  with Some show ?thesis by simp
qed

text \<open>Whatever the index it starts from, \<open>nextSkillIndex\<close> lands on a skill or, in a list
  without skills, on 0.\<close>

lemma pointsOk_next: "pointsOk items (nextSkillIndex items from d)"
proof (cases "scanLoop items (from + delta d) d")
  case (Some j)
  from scanLoop_Some [OF Some] have "pointsOk items j" by (intro pointsOk_index) simp_all
  with Some show ?thesis by (simp add: nextSkillIndex_def)
next
  case None
  show ?thesis
  proof (cases d)
    case Plus
    with None have "nextSkillIndex items from d =
        (case firstSkillIndex items of Some first \<Rightarrow> int first | None \<Rightarrow> 0)"
      by (simp add: nextSkillIndex_def)
    then show ?thesis by (simp add: pointsOk_first)
  next
    case Minus
    show ?thesis
    proof (cases "scanLoop items (int (length items) - 1) Minus")
      case inner: None
      then have "\<not> list_ex isSkill items" by (rule scanLoop_last_None)
      with None Minus inner show ?thesis by (simp add: nextSkillIndex_def pointsOk_def)
    next
      case (Some i)
      from scanLoop_Some [OF Some] have "pointsOk items i" by (intro pointsOk_index) simp_all
      with None Minus Some show ?thesis by (simp add: nextSkillIndex_def)
    qed
  qed
qed

lemma cursorOk_pointsOk: "cursorOk s = pointsOk (displayItems s) (selectedIndex s)"
  by (simp add: cursorOk_def)

lemma cursorOk_updateFilter: "cursorOk (updateFilter lc s)"
  by (simp add: cursorOk_pointsOk updateFilter_def Let_def pointsOk_first)

lemma cursorOk_create: "cursorOk (createPaletteState lc skills queued rs)"
  using pointsOk_first [of "buildDisplayList lc skills rs"]
  by (simp add: cursorOk_pointsOk createPaletteState_def Let_def firstSkillIndex_def)

lemma cursorOk_step:
  assumes "cursorOk s"
  shows "cursorOk (snd (handlePaletteInput mk lc s data))"
  using assms
  by (auto simp: handlePaletteInput_def cursorOk_updateFilter
           cursorOk_pointsOk [of "s\<lparr>selectedIndex := j\<rparr>" for j] pointsOk_next
           split: option.splits DisplayItem.splits)

text \<open>
  C8. Cursor invariant: in every state reachable from \<open>createPaletteState\<close> by any sequence
  of inputs to \<open>handlePaletteInput\<close> (whatever \<open>matchesKey\<close> and \<open>localeCompare\<close> are),
  \<open>selectedIndex\<close> points at an item of type skill whenever \<open>displayItems\<close> contains one,
  and is 0 when it contains none; in particular it never rests on a header.
\<close>

theorem cursor_invariant: "reachable mk lc s \<Longrightarrow> cursorOk s"
proof (induction rule: reachable.induct)
  case (init skills queued rs)
  show ?case by (rule cursorOk_create)
next
  case (step s data)
  then show ?case by (simp add: cursorOk_step)
qed

theorem cursor_invariant_witness:
  "reachable KEYS codeUnitCompare
     (snd (handlePaletteInput KEYS codeUnitCompare
            (createPaletteState codeUnitCompare testSkills None []) [CHR 0x1B, CHR ''['', CHR ''B''])) \<and>
   cursorOk
     (snd (handlePaletteInput KEYS codeUnitCompare
            (createPaletteState codeUnitCompare testSkills None []) [CHR 0x1B, CHR ''['', CHR ''B'']))"
proof -
  have r: "reachable KEYS codeUnitCompare
     (snd (handlePaletteInput KEYS codeUnitCompare
            (createPaletteState codeUnitCompare testSkills None []) [CHR 0x1B, CHR ''['', CHR ''B'']))"
    by (rule reachable.step) (rule reachable.init)
  from r cursor_invariant [OF r] show ?thesis by blast
qed

section \<open>The selection state machine: the transitions\<close>

lemma handle_escape: "mk data ''escape'' \<Longrightarrow> handlePaletteInput mk lc s data = (Some Cancel, s)"
  by (simp add: handlePaletteInput_def)

lemma handle_return:
  assumes "\<not> mk data ''escape''" and "mk data ''return''"
  shows "handlePaletteInput mk lc s data =
    (case elemAt (displayItems s) (selectedIndex s) of
       Some (Entry skill g) \<Rightarrow>
         (if Some (name skill) = queuedSkillName s then (Some (Unqueue skill), s)
          else (Some (Select skill), s))
     | _ \<Rightarrow> (None, s))"
  using assms by (simp add: handlePaletteInput_def)

lemma handle_up:
  assumes "\<not> mk data ''escape''" "\<not> mk data ''return''" "mk data ''up''"
  shows "handlePaletteInput mk lc s data =
    (None, s\<lparr>selectedIndex := nextSkillIndex (displayItems s) (selectedIndex s) Minus\<rparr>)"
  using assms by (simp add: handlePaletteInput_def)

lemma handle_down:
  assumes "\<not> mk data ''escape''" "\<not> mk data ''return''" "\<not> mk data ''up''" "mk data ''down''"
  shows "handlePaletteInput mk lc s data =
    (None, s\<lparr>selectedIndex := nextSkillIndex (displayItems s) (selectedIndex s) Plus\<rparr>)"
  using assms by (simp add: handlePaletteInput_def)

lemma handle_backspace:
  assumes "\<not> mk data ''escape''" "\<not> mk data ''return''" "\<not> mk data ''up''" "\<not> mk data ''down''"
    and "mk data ''backspace''"
  shows "handlePaletteInput mk lc s data =
    (if length (query s) > 0 then (None, updateFilter lc (s\<lparr>query := butlast (query s)\<rparr>))
     else (None, s))"
  using assms by (simp add: handlePaletteInput_def)

lemma handle_printable:
  assumes "\<not> mk data ''escape''" "\<not> mk data ''return''" "\<not> mk data ''up''" "\<not> mk data ''down''"
    and "\<not> mk data ''backspace''" and "length data = 1" and "32 \<le> (of_char (data ! 0) :: nat)"
  shows "handlePaletteInput mk lc s data = (None, updateFilter lc (s\<lparr>query := query s @ data\<rparr>))"
  using assms by (simp add: handlePaletteInput_def)

lemma updateFilter_fields:
  "query (updateFilter lc s) = query s"
  "allSkills (updateFilter lc s) = allSkills s"
  "recents (updateFilter lc s) = recents s"
  "queuedSkillName (updateFilter lc s) = queuedSkillName s"
  by (simp_all add: updateFilter_def Let_def)

lemma updateFilter_displayItems:
  "displayItems (updateFilter lc s) =
     (if trim (query s) \<noteq> []
      then map (\<lambda>skill. Entry skill (namespace skill)) (filterSkills (allSkills s) (query s))
      else buildDisplayList lc (allSkills s) (recents s))"
  by (simp add: updateFilter_def Let_def filterSkills_blank)

lemma create_fields:
  "allSkills (createPaletteState lc skills queued rs) = skills"
  "displayItems (createPaletteState lc skills queued rs) = buildDisplayList lc skills rs"
  "selectedIndex (createPaletteState lc skills queued rs) =
     (case findIndex isSkill (buildDisplayList lc skills rs) of Some i \<Rightarrow> int i | None \<Rightarrow> 0)"
  "query (createPaletteState lc skills queued rs) = []"
  "queuedSkillName (createPaletteState lc skills queued rs) = queued"
  "recents (createPaletteState lc skills queued rs) = rs"
  by (simp_all add: createPaletteState_def Let_def)

lemma testList:
  "buildDisplayList codeUnitCompare testSkills [] =
    [Header ''marketing'', Entry (makeSkill ''ad-creative'' ''marketing'') ''marketing'',
     Header ''search'', Entry (makeSkill ''brave-search'' ''search'') ''search'',
     Header ''tools'', Entry (makeSkill ''fizzy-cli'' ''tools'') ''tools'']"
  by code_simp

text \<open>
  C5 as stated fails for a query that is not empty but blank: the source switches on
  \<open>state.query.trim()\<close>. Typing a space into the fresh session over a one-skill catalog
  leaves the query \<open>" "\<close>, for which \<open>filterSkills\<close> returns the catalog, and the display
  list is the grouped one, with its header.
\<close>

theorem blank_query_grouped:
  "filterSkills [makeSkill ''fizzy-cli'' ''tools''] '' '' = [makeSkill ''fizzy-cli'' ''tools''] \<and>
   query (snd (handlePaletteInput KEYS codeUnitCompare
            (createPaletteState codeUnitCompare [makeSkill ''fizzy-cli'' ''tools''] None []) '' '')) = '' '' \<and>
   displayItems (snd (handlePaletteInput KEYS codeUnitCompare
            (createPaletteState codeUnitCompare [makeSkill ''fizzy-cli'' ''tools''] None []) '' ''))
     = [Header ''tools'', Entry (makeSkill ''fizzy-cli'' ''tools'') ''tools'']"
proof -
  let ?s0 = "createPaletteState codeUnitCompare [makeSkill ''fizzy-cli'' ''tools''] None []"
  have k: "\<not> KEYS '' '' ''escape''" "\<not> KEYS '' '' ''return''" "\<not> KEYS '' '' ''up''"
    "\<not> KEYS '' '' ''down''" "\<not> KEYS '' '' ''backspace''"
    by (simp_all add: KEYS_def)
  have p: "length '' '' = 1" "32 \<le> (of_char ('' '' ! 0) :: nat)"
    by simp_all
  have t: "trim '' '' = []" by code_simp
  have b: "buildDisplayList codeUnitCompare [makeSkill ''fizzy-cli'' ''tools''] []
             = [Header ''tools'', Entry (makeSkill ''fizzy-cli'' ''tools'') ''tools'']"
    by code_simp
  have "snd (handlePaletteInput KEYS codeUnitCompare ?s0 '' '') = updateFilter codeUnitCompare (?s0\<lparr>query := query ?s0 @ '' ''\<rparr>)"
    using k p by (simp add: handle_printable)
  then show ?thesis
    using t b by (simp add: updateFilter_fields updateFilter_displayItems create_fields filterSkills_blank)
qed

text \<open>
  C5, amended. For every session state, after a query-editing transition (a printable
  character appended, or the last character erased from a query that is not empty): if the
  resulting query is not blank (not empty after trimming), the display list is exactly one
  entry per element of \<open>filterSkills(allSkills, query)\<close>, in that order, each tagged with
  its own namespace, with no header; if the resulting query is empty or blank, the display
  list is \<open>buildDisplayList\<close> over the full catalog and the recents.
\<close>

theorem display_mode_switch:
  assumes keys: "\<not> mk data ''escape''" "\<not> mk data ''return''" "\<not> mk data ''up''" "\<not> mk data ''down''"
    and edit: "(mk data ''backspace'' \<and> query s \<noteq> []) \<or>
               (\<not> mk data ''backspace'' \<and> length data = 1 \<and> 32 \<le> (of_char (data ! 0) :: nat))"
    and s': "s' = snd (handlePaletteInput mk lc s data)"
  shows "query s' = (if mk data ''backspace'' then butlast (query s) else query s @ data) \<and>
         allSkills s' = allSkills s \<and> recents s' = recents s \<and>
         (trim (query s') \<noteq> [] \<longrightarrow>
            displayItems s' = map (\<lambda>skill. Entry skill (namespace skill))
                                  (filterSkills (allSkills s) (query s'))) \<and>
         (trim (query s') = [] \<longrightarrow>
            displayItems s' = buildDisplayList lc (allSkills s) (recents s))"
proof (cases "mk data ''backspace''")
  case True
  with edit have "0 < length (query s)" by simp
  with True keys have "s' = updateFilter lc (s\<lparr>query := butlast (query s)\<rparr>)"
    unfolding s' by (simp add: handle_backspace)
  with True show ?thesis
    by (simp add: updateFilter_fields updateFilter_displayItems)
next
  case False
  with edit keys have "s' = updateFilter lc (s\<lparr>query := query s @ data\<rparr>)"
    unfolding s' by (simp add: handle_printable)
  with False show ?thesis
    by (simp add: updateFilter_fields updateFilter_displayItems)
qed

theorem display_mode_switch_witness:
  "displayItems (snd (handlePaletteInput KEYS codeUnitCompare
       (createPaletteState codeUnitCompare testSkills None []) ''f''))
     = [Entry (makeSkill ''fizzy-cli'' ''tools'') ''tools'',
        Entry (makeSkill ''ad-creative'' ''marketing'') ''marketing'',
        Entry (makeSkill ''brave-search'' ''search'') ''search''] \<and>
   displayItems (snd (handlePaletteInput KEYS codeUnitCompare
       (snd (handlePaletteInput KEYS codeUnitCompare
          (createPaletteState codeUnitCompare testSkills None []) ''f'')) [CHR 0x7F]))
     = buildDisplayList codeUnitCompare testSkills []"
proof -
  let ?s0 = "createPaletteState codeUnitCompare testSkills None []"
  let ?s1 = "snd (handlePaletteInput KEYS codeUnitCompare ?s0 ''f'')"
  let ?s2 = "snd (handlePaletteInput KEYS codeUnitCompare ?s1 [CHR 0x7F])"
  have k: "\<not> KEYS ''f'' ''escape''" "\<not> KEYS ''f'' ''return''" "\<not> KEYS ''f'' ''up''"
    "\<not> KEYS ''f'' ''down''"
    by (simp_all add: KEYS_def)
  have e: "(KEYS ''f'' ''backspace'' \<and> query ?s0 \<noteq> []) \<or>
           (\<not> KEYS ''f'' ''backspace'' \<and> length ''f'' = 1 \<and> 32 \<le> (of_char (''f'' ! 0) :: nat))"
    by (simp add: KEYS_def)
  have nb: "\<not> KEYS ''f'' ''backspace''" by (simp add: KEYS_def)
  note one = display_mode_switch [where mk = KEYS and data = "''f''" and lc = codeUnitCompare
                 and s = ?s0, OF k e refl]
  have q1: "query ?s1 = ''f''"
    using one nb by (simp add: create_fields)
  have t1: "trim ''f'' \<noteq> []" by code_simp
  have f: "filterSkills testSkills ''f'' = [makeSkill ''fizzy-cli'' ''tools'',
        makeSkill ''ad-creative'' ''marketing'', makeSkill ''brave-search'' ''search'']"
  proof -
    have a1: "trim ''f'' \<noteq> []"
      by code_simp
    have a2: "indexOf ''f'' '':'' = None \<or> indexOf ''f'' '':'' = Some 0"
      by code_simp
    have a3: "filter (\<lambda>s. toLowerCase (namespace s) = trim (toLowerCase ''f'')) testSkills = []"
      by code_simp
    have a4: "length (filter (\<lambda>ns. startsWith ns (trim (toLowerCase ''f'')))
                       (newSet (map (\<lambda>s. toLowerCase (namespace s)) testSkills))) \<noteq> 1"
      by code_simp
    have "filterSkills testSkills ''f'' = rank (plainScore (trim (toLowerCase ''f''))) testSkills"
      using a1 a2 a3 a4 by (rule filterSkills_plain)
    also have "\<dots> = [makeSkill ''fizzy-cli'' ''tools'',
        makeSkill ''ad-creative'' ''marketing'', makeSkill ''brave-search'' ''search'']"
      by code_simp
    finally show ?thesis .
  qed
  have d1: "displayItems ?s1 = map (\<lambda>skill. Entry skill (namespace skill)) (filterSkills testSkills ''f'')"
    using one t1 unfolding q1 by (simp add: create_fields)
  have kb: "\<not> KEYS [CHR 0x7F] ''escape''" "\<not> KEYS [CHR 0x7F] ''return''" "\<not> KEYS [CHR 0x7F] ''up''"
    "\<not> KEYS [CHR 0x7F] ''down''"
    by (simp_all add: KEYS_def)
  have b: "KEYS [CHR 0x7F] ''backspace''" by (simp add: KEYS_def)
  have eb: "(KEYS [CHR 0x7F] ''backspace'' \<and> query ?s1 \<noteq> []) \<or>
           (\<not> KEYS [CHR 0x7F] ''backspace'' \<and> length [CHR 0x7F] = 1 \<and> 32 \<le> (of_char ([CHR 0x7F] ! 0) :: nat))"
    using b q1 by simp
  note two = display_mode_switch [where mk = KEYS and data = "[CHR 0x7F]" and lc = codeUnitCompare
                 and s = ?s1, OF kb eb refl]
  have q2: "query ?s2 = []"
    using two b q1 by simp
  have t2: "trim [] = []" by (simp add: trim_def)
  have d2: "displayItems ?s2 = buildDisplayList codeUnitCompare testSkills []"
    using two one unfolding q2 t2 by (simp add: create_fields)
  show ?thesis
    unfolding d2 d1 f by (simp add: makeSkill_def)
qed

text \<open>
  C9. Confirm semantics: for every session state with an entry under the cursor, the
  confirm key (an input that \<open>matchesKey\<close> takes for \<open>return\<close> and not for \<open>escape\<close>, which
  is asked first) returns \<open>unqueue\<close> with that entry's skill exactly when the skill's name
  equals \<open>queuedSkillName\<close>, and \<open>select\<close> with the same skill when \<open>queuedSkillName\<close> is
  null or names another skill; the state is left as it was.
\<close>

theorem confirm_semantics:
  assumes "\<not> mk data ''escape''" and "mk data ''return''"
    and "0 \<le> selectedIndex s" and "selectedIndex s < int (length (displayItems s))"
    and "displayItems s ! nat (selectedIndex s) = Entry skill g"
  shows "handlePaletteInput mk lc s data =
           (Some (if queuedSkillName s = Some (name skill) then Unqueue skill else Select skill), s)"
proof -
  from assms(3-5) have "elemAt (displayItems s) (selectedIndex s) = Some (Entry skill g)"
    by (simp add: elemAt_def)
  with assms(1,2) show ?thesis
    by (auto simp: handle_return)
qed

theorem confirm_semantics_witness:
  "handlePaletteInput KEYS codeUnitCompare (createPaletteState codeUnitCompare testSkills None []) [CHR 0x0D]
     = (Some (Select (makeSkill ''ad-creative'' ''marketing'')),
        createPaletteState codeUnitCompare testSkills None []) \<and>
   handlePaletteInput KEYS codeUnitCompare
       (createPaletteState codeUnitCompare testSkills (Some ''ad-creative'') []) [CHR 0x0D]
     = (Some (Unqueue (makeSkill ''ad-creative'' ''marketing'')),
        createPaletteState codeUnitCompare testSkills (Some ''ad-creative'') [])"
proof -
  have k1: "\<not> KEYS [CHR 0x0D] ''escape''" by (simp add: KEYS_def)
  have k2: "KEYS [CHR 0x0D] ''return''" by (simp add: KEYS_def)
  have sel: "selectedIndex (createPaletteState codeUnitCompare testSkills queued []) = 1" for queued
    unfolding create_fields testList by simp
  have item: "displayItems (createPaletteState codeUnitCompare testSkills queued []) !
                nat (selectedIndex (createPaletteState codeUnitCompare testSkills queued []))
              = Entry (makeSkill ''ad-creative'' ''marketing'') ''marketing''" for queued
    unfolding sel unfolding create_fields testList by simp
  have len: "selectedIndex (createPaletteState codeUnitCompare testSkills queued [])
               < int (length (displayItems (createPaletteState codeUnitCompare testSkills queued [])))" for queued
    unfolding sel unfolding create_fields testList by simp
  have pos: "0 \<le> selectedIndex (createPaletteState codeUnitCompare testSkills queued [])" for queued
    unfolding sel by simp
  have nm: "name (makeSkill ''ad-creative'' ''marketing'') = ''ad-creative''"
    by (simp add: makeSkill_def)
  from confirm_semantics [where mk = KEYS and data = "[CHR 0x0D]" and lc = codeUnitCompare
         and s = "createPaletteState codeUnitCompare testSkills None []", OF k1 k2 pos len item]
       confirm_semantics [where mk = KEYS and data = "[CHR 0x0D]" and lc = codeUnitCompare
         and s = "createPaletteState codeUnitCompare testSkills (Some ''ad-creative'') []",
         OF k1 k2 pos len item]
  show ?thesis
    by (simp add: create_fields nm)
qed

section \<open>The match engine: the order of the display list\<close>

lemma mapSet_keys:
  "map fst (mapSet m k v) = (if k \<in> set (map fst m) then map fst m else map fst m @ [k])"
proof (induction m)
  case Nil
  then show ?case by simp
next
  case (Cons p m)
  obtain k' v' where p: "p = (k', v')" by (cases p)
  show ?case
  proof (cases "k' = k")
    case True
    then show ?thesis by (simp add: p)
  next
    case False
    with Cons.IH show ?thesis by (simp add: p)
  qed
qed

lemma mapSet_distinct: "distinct (map fst m) \<Longrightarrow> distinct (map fst (mapSet m k v))"
  by (simp add: mapSet_keys)

lemma groupStep_distinct:
  "distinct (map fst groups) \<Longrightarrow> distinct (map fst (groupStep recentNames groups skill))"
  by (simp add: groupStep_def Let_def mapSet_distinct)

lemma foldl_groupStep_distinct:
  "distinct (map fst groups) \<Longrightarrow> distinct (map fst (foldl (groupStep recentNames) groups skills))"
  by (induction skills arbitrary: groups) (simp_all add: groupStep_distinct)

lemma groupsOf_distinct: "distinct (map fst (groupsOf skills rs))"
  by (simp add: groupsOf_def foldl_groupStep_distinct)

lemma mapGet_key: "k \<in> set (map fst m) \<Longrightarrow> mapGet m k \<noteq> None"
  by (simp add: mapGet_def map_of_eq_None_iff)

lemma sortedNs_keys: "ns \<in> set (sortedNs lc groups) \<Longrightarrow> mapGet groups ns \<noteq> None"
  by (simp add: sortedNs_def set_sortBy mapGet_key)

lemma nsCompare_le:
  "nsCompare lc a b \<le> 0 \<longleftrightarrow> a \<noteq> ''other'' \<and> (b = ''other'' \<or> lc a b \<le> 0)"
  by (simp add: nsCompare_def)

lemma distinct_sorted_wrt_neq: "distinct xs \<Longrightarrow> sorted_wrt (\<lambda>x y. x \<noteq> y) xs"
  by (induction xs) auto

lemma sorted_sortedNs:
  assumes "consistent lc" and "distinct (map fst groups)"
  shows "sorted_wrt (\<lambda>a b. a \<noteq> ''other'' \<and> (b = ''other'' \<or> lc a b \<le> 0)) (sortedNs lc groups)"
proof -
  from assms(1) have total: "lc a b \<le> 0 \<or> lc b a \<le> 0" for a b
    unfolding consistent_def by blast
  from assms(1) have trans: "lc a b \<le> 0 \<Longrightarrow> lc b c \<le> 0 \<Longrightarrow> lc a c \<le> 0" for a b c
    unfolding consistent_def by blast
  have "sorted_wrt (\<lambda>x y. nsCompare lc x y \<le> 0 \<or> nsCompare lc y x \<le> 0) (map fst groups)"
  proof (rule sorted_wrt_mono_rel [OF _ distinct_sorted_wrt_neq [OF assms(2)]])
    fix x y :: string assume "x \<noteq> y"
    then show "nsCompare lc x y \<le> 0 \<or> nsCompare lc y x \<le> 0"
      using total [of x y] by (auto simp: nsCompare_le)
  qed
  moreover have "nsCompare lc x z \<le> 0" if "nsCompare lc x y \<le> 0" "nsCompare lc y z \<le> 0" for x y z
    using that trans [of x y z] by (auto simp: nsCompare_le)
  ultimately have "sorted_wrt (\<lambda>a b. nsCompare lc a b \<le> 0) (sortBy (nsCompare lc) (map fst groups))"
    by (intro sorted_sortBy) blast+
  then show ?thesis
    by (simp add: sortedNs_def nsCompare_le)
qed

lemma sorted_members:
  assumes "consistent lc"
  shows "sorted_wrt (\<lambda>a b. lc (name a) (name b) \<le> 0) (sortBy (\<lambda>a b. lc (name a) (name b)) members)"
proof -
  from assms have total: "lc a b \<le> 0 \<or> lc b a \<le> 0" for a b
    unfolding consistent_def by blast
  from assms have trans: "lc a b \<le> 0 \<Longrightarrow> lc b c \<le> 0 \<Longrightarrow> lc a c \<le> 0" for a b c
    unfolding consistent_def by blast
  have "sorted_wrt (\<lambda>x y. lc (name x) (name y) \<le> 0 \<or> lc (name y) (name x) \<le> 0) members"
    using total by (induction members) auto
  then show ?thesis
    using trans by (intro sorted_sortBy) blast+
qed

lemma headed_block:
  "headed cur (Header g # map (\<lambda>skill. Entry skill g) members @ rest) = headed (Some g) rest"
  by (induction members) auto

lemma headed_blocks:
  "headed cur (concat (map (\<lambda>(ns, members). Header ns # map (\<lambda>skill. Entry skill ns) members) groups))"
proof (induction groups arbitrary: cur)
  case Nil
  then show ?case by simp
next
  case (Cons g groups)
  obtain ns members where g: "g = (ns, members)" by (cases g)
  from Cons.IH [of "Some ns"] show ?case
    using headed_block [of cur ns members] by (simp add: g)
qed

lemma headerLabels_block:
  "headerLabels (Header g # map (\<lambda>skill. Entry skill g) members @ rest) = g # headerLabels rest"
  by (induction members) auto

lemma headerLabels_blocks:
  "headerLabels (concat (map (\<lambda>(ns, members). Header ns # map (\<lambda>skill. Entry skill ns) members) groups))
     = map fst groups"
proof (induction groups)
  case Nil
  then show ?case by simp
next
  case (Cons g groups)
  obtain ns members where g: "g = (ns, members)" by (cases g)
  from Cons.IH show ?case
    using headerLabels_block [of ns members] by (simp add: g)
qed

lemma recentSection_cases:
  "recentSection skills rs = [] \<or>
   (\<exists>members. members \<noteq> [] \<and> recentSection skills rs = Header ''recent'' # map (\<lambda>skill. Entry skill ''recent'') members)"
  by (auto simp: recentSection_def Let_def)

lemma groupSection_blocks:
  "groupSection lc skills rs =
     concat (map (\<lambda>(ns, members). Header ns # map (\<lambda>skill. Entry skill ns) members)
       (map (\<lambda>ns. (ns, sortBy (\<lambda>a b. lc (name a) (name b)) (the (mapGet (groupsOf skills rs) ns))))
            (sortedNs lc (groupsOf skills rs))))"
proof -
  have "groupBlock lc groups =
          (\<lambda>ns. Header ns # map (\<lambda>skill. Entry skill ns)
                   (sortBy (\<lambda>a b. lc (name a) (name b)) (the (mapGet groups ns))))" for groups
    by (rule ext) (simp add: groupBlock_def Let_def)
  then show ?thesis
    by (simp add: groupSection_def Let_def o_def)
qed

lemma codeUnitCompare_total: "codeUnitCompare a b \<le> 0 \<or> codeUnitCompare b a \<le> 0"
  by (induction a b rule: codeUnitCompare.induct) auto

lemma codeUnitCompare_trans:
  "codeUnitCompare a b \<le> 0 \<Longrightarrow> codeUnitCompare b c \<le> 0 \<Longrightarrow> codeUnitCompare a c \<le> 0"
proof (induction a arbitrary: b c)
  case Nil
  then show ?case by (cases c) auto
next
  case (Cons x a)
  from Cons.prems(1) obtain y b' where b: "b = y # b'" by (cases b) auto
  from Cons.prems(2) b obtain z c' where c: "c = z # c'" by (cases c) auto
  from Cons.prems b c have xy: "(of_char x :: nat) \<le> of_char y" and yz: "(of_char y :: nat) \<le> of_char z"
    by (auto split: if_splits)
  show ?case
  proof (cases "(of_char x :: nat) < of_char z")
    case True
    then show ?thesis by (simp add: c)
  next
    case False
    with xy yz have e: "(of_char x :: nat) = of_char y" "(of_char y :: nat) = of_char z" by linarith+
    with Cons.prems b c have "codeUnitCompare a b' \<le> 0" "codeUnitCompare b' c' \<le> 0"
      by (auto split: if_splits)
    then have "codeUnitCompare a c' \<le> 0" by (rule Cons.IH)
    with e show ?thesis by (simp add: c)
  qed
qed

lemma consistent_codeUnitCompare: "consistent codeUnitCompare"
  unfolding consistent_def using codeUnitCompare_total codeUnitCompare_trans by blast

text \<open>The recent section shows the recents that name a skill of the catalog, in the order
  of the recents list.\<close>

lemma entryNames_entries: "entryNames (map (\<lambda>skill. Entry skill g) members) = map name members"
  by (induction members) auto

lemma found_names:
  "map name (map the (filter (\<lambda>s. s \<noteq> None) (map (\<lambda>r. find (\<lambda>s. name s = name_u r) skills) rs)))
     = filter (\<lambda>n. n \<in> set (map name skills)) (map name_u rs)"
proof (induction rs)
  case Nil
  then show ?case by simp
next
  case (Cons r rs)
  show ?case
  proof (cases "find (\<lambda>s. name s = name_u r) skills")
    case None
    then have "name_u r \<notin> set (map name skills)"
      by (auto simp: find_None_iff)
    with None Cons.IH show ?thesis by simp
  next
    case (Some s)
    then have "name s = name_u r" and "s \<in> set skills"
      by (auto simp: find_Some_iff)
    then have "name_u r \<in> set (map name skills)"
      by force
    with Some \<open>name s = name_u r\<close> Cons.IH show ?thesis by simp
  qed
qed

lemma recentSection_names:
  "entryNames (recentSection skills rs) = filter (\<lambda>n. n \<in> set (map name skills)) (map name_u rs)"
proof -
  let ?found = "map the (filter (\<lambda>s. s \<noteq> None) (map (\<lambda>r. find (\<lambda>s. name s = name_u r) skills) rs))"
  have "entryNames (recentSection skills rs) = map name ?found"
  proof (cases "rs = [] \<or> ?found = []")
    case True
    then show ?thesis by (auto simp: recentSection_def Let_def)
  next
    case False
    then have "recentSection skills rs = Header ''recent'' # map (\<lambda>skill. Entry skill ''recent'') ?found"
      by (simp add: recentSection_def Let_def)
    then show ?thesis by (simp only: entryNames.simps entryNames_entries)
  qed
  then show ?thesis by (simp only: found_names)
qed

lemma groupedList:
  "buildDisplayList codeUnitCompare groupedSkills someRecents =
    [Header ''recent'', Entry (makeSkill ''zed'' ''other'') ''recent'',
     Entry (makeSkill ''ad-creative'' ''marketing'') ''recent'',
     Header ''search'', Entry (makeSkill ''brave-search'' ''search'') ''search'',
     Header ''tools'', Entry (makeSkill ''abc'' ''tools'') ''tools'',
     Entry (makeSkill ''able'' ''tools'') ''tools'', Entry (makeSkill ''fizzy-cli'' ''tools'') ''tools'',
     Header ''zz'', Entry (makeSkill ''p'' ''zz'') ''zz'',
     Header ''other'', Entry (makeSkill ''yak'' ''other'') ''other'']"
  by code_simp

lemma groupedRecents:
  "filter (\<lambda>n. n \<in> set (map name groupedSkills)) (map name_u someRecents) = [''zed'', ''ad-creative'']"
  by code_simp

text \<open>
  C6 as stated fails for the recent group: its entries follow the recents list, most recent
  first, and are not sorted by name. With the recents \<open>b\<close>, \<open>a\<close> the entry of \<open>b\<close> comes
  before the entry of \<open>a\<close>.
\<close>

theorem recent_group_not_alphabetical:
  "buildDisplayList codeUnitCompare [makeSkill ''a'' ''ns'', makeSkill ''b'' ''ns'']
      [\<lparr>name_u = ''b'', namespace_u = ''ns'', timestamp_u = 2, count_u = 1\<rparr>,
       \<lparr>name_u = ''a'', namespace_u = ''ns'', timestamp_u = 1, count_u = 1\<rparr>]
     = [Header ''recent'', Entry (makeSkill ''b'' ''ns'') ''recent'',
        Entry (makeSkill ''a'' ''ns'') ''recent''] \<and>
   0 < codeUnitCompare (name (makeSkill ''b'' ''ns'')) (name (makeSkill ''a'' ''ns''))"
  by code_simp

text \<open>
  C6, amended. For every skill list and recents list, and every consistent
  \<open>localeCompare\<close>: in the output of \<open>buildDisplayList\<close> the nearest header before every
  entry exists and carries the entry's group label, so that no entry precedes its owning
  header. The output is the recent section (empty, or the header \<open>recent\<close> with its
  entries) followed by one block per namespace group, a header and then its entries; of two
  namespace headers (the headers of the part after the recent section) the earlier one is
  never \<open>other\<close>, and the later one is \<open>other\<close> or not before the earlier one in
  alphabetical order; within each namespace group the entries are in alphabetical order of
  their names; within the recent group the entries are in the order of the recents list:
  their names are the names of the recents that name a skill of the catalog, in that order.
\<close>

theorem buildDisplayList_ordering:
  assumes "consistent lc"
  shows "headed None (buildDisplayList lc skills rs) \<and>
    buildDisplayList lc skills rs = recentSection skills rs @ groupSection lc skills rs \<and>
    sorted_wrt (\<lambda>a b. a \<noteq> ''other'' \<and> (b = ''other'' \<or> lc a b \<le> 0))
      (headerLabels (groupSection lc skills rs)) \<and>
    (\<exists>recent groups.
       buildDisplayList lc skills rs =
         recent @ concat (map (\<lambda>(ns, members). Header ns # map (\<lambda>skill. Entry skill ns) members) groups) \<and>
       (recent = [] \<or>
        (\<exists>members. members \<noteq> [] \<and>
           recent = Header ''recent'' # map (\<lambda>skill. Entry skill ''recent'') members)) \<and>
       sorted_wrt (\<lambda>a b. a \<noteq> ''other'' \<and> (b = ''other'' \<or> lc a b \<le> 0)) (map fst groups) \<and>
       (\<forall>(ns, members) \<in> set groups. sorted_wrt (\<lambda>a b. lc (name a) (name b) \<le> 0) members)) \<and>
    entryNames (recentSection skills rs) = filter (\<lambda>n. n \<in> set (map name skills)) (map name_u rs)"
proof -
  let ?block = "\<lambda>(ns, members). Header ns # map (\<lambda>skill. Entry skill ns) members"
  let ?G = "groupsOf skills rs"
  let ?groups = "map (\<lambda>ns. (ns, sortBy (\<lambda>a b. lc (name a) (name b)) (the (mapGet ?G ns)))) (sortedNs lc ?G)"
  let ?recent = "recentSection skills rs"
  have eq: "buildDisplayList lc skills rs = ?recent @ concat (map ?block ?groups)"
    by (simp only: buildDisplayList_def groupSection_blocks)
  have rc: "?recent = [] \<or>
        (\<exists>members. members \<noteq> [] \<and> ?recent = Header ''recent'' # map (\<lambda>skill. Entry skill ''recent'') members)"
    by (rule recentSection_cases)
  have keys: "map fst ?groups = sortedNs lc ?G"
    by (simp add: o_def)
  have so: "sorted_wrt (\<lambda>a b. a \<noteq> ''other'' \<and> (b = ''other'' \<or> lc a b \<le> 0)) (map fst ?groups)"
    unfolding keys using assms groupsOf_distinct by (rule sorted_sortedNs)
  have me: "\<forall>(ns, members) \<in> set ?groups. sorted_wrt (\<lambda>a b. lc (name a) (name b) \<le> 0) members"
    using sorted_members [OF assms] by auto
  have hd: "headed None (?recent @ concat (map ?block ?groups))"
  proof (rule disjE [OF rc])
    assume "?recent = []"
    then show ?thesis by (simp only: append_Nil headed_blocks)
  next
    assume "\<exists>members. members \<noteq> [] \<and> ?recent = Header ''recent'' # map (\<lambda>skill. Entry skill ''recent'') members"
    then obtain members where "?recent = Header ''recent'' # map (\<lambda>skill. Entry skill ''recent'') members"
      by blast
    then show ?thesis
      using headed_block [of None "''recent''" members "concat (map ?block ?groups)"]
      by (simp only: append_Cons headed_blocks)
  qed
  have "headerLabels (groupSection lc skills rs) = map fst ?groups"
    by (simp only: groupSection_blocks headerLabels_blocks)
  with so have hl: "sorted_wrt (\<lambda>a b. a \<noteq> ''other'' \<and> (b = ''other'' \<or> lc a b \<le> 0))
      (headerLabels (groupSection lc skills rs))"
    by simp
  have df: "buildDisplayList lc skills rs = recentSection skills rs @ groupSection lc skills rs"
    by (rule buildDisplayList_def)
  from hd have "headed None (buildDisplayList lc skills rs)"
    by (simp only: eq)
  moreover have "\<exists>recent groups.
       buildDisplayList lc skills rs = recent @ concat (map ?block groups) \<and>
       (recent = [] \<or>
        (\<exists>members. members \<noteq> [] \<and>
           recent = Header ''recent'' # map (\<lambda>skill. Entry skill ''recent'') members)) \<and>
       sorted_wrt (\<lambda>a b. a \<noteq> ''other'' \<and> (b = ''other'' \<or> lc a b \<le> 0)) (map fst groups) \<and>
       (\<forall>(ns, members) \<in> set groups. sorted_wrt (\<lambda>a b. lc (name a) (name b) \<le> 0) members)"
    using eq rc so me by blast
  moreover have "entryNames (recentSection skills rs)
                   = filter (\<lambda>n. n \<in> set (map name skills)) (map name_u rs)"
    by (rule recentSection_names)
  ultimately show ?thesis
    using df hl by blast
qed

theorem buildDisplayList_ordering_witness:
  "consistent codeUnitCompare \<and>
   headed None (buildDisplayList codeUnitCompare groupedSkills someRecents) \<and>
   entryNames (recentSection groupedSkills someRecents) = [''zed'', ''ad-creative''] \<and>
   buildDisplayList codeUnitCompare groupedSkills someRecents =
    [Header ''recent'', Entry (makeSkill ''zed'' ''other'') ''recent'',
     Entry (makeSkill ''ad-creative'' ''marketing'') ''recent'',
     Header ''search'', Entry (makeSkill ''brave-search'' ''search'') ''search'',
     Header ''tools'', Entry (makeSkill ''abc'' ''tools'') ''tools'',
     Entry (makeSkill ''able'' ''tools'') ''tools'', Entry (makeSkill ''fizzy-cli'' ''tools'') ''tools'',
     Header ''zz'', Entry (makeSkill ''p'' ''zz'') ''zz'',
     Header ''other'', Entry (makeSkill ''yak'' ''other'') ''other'']"
proof -
  note ordering = buildDisplayList_ordering [OF consistent_codeUnitCompare, of groupedSkills someRecents]
  from ordering have "headed None (buildDisplayList codeUnitCompare groupedSkills someRecents)"
    by blast
  moreover from ordering
  have "entryNames (recentSection groupedSkills someRecents)
          = filter (\<lambda>n. n \<in> set (map name groupedSkills)) (map name_u someRecents)"
    by blast
  then have "entryNames (recentSection groupedSkills someRecents) = [''zed'', ''ad-creative'']"
    by (simp only: groupedRecents)
  ultimately show ?thesis
    using consistent_codeUnitCompare groupedList by blast
qed

section \<open>Usage records: what \<open>recordUsage\<close> leaves\<close>

text \<open>
  C7. For every recents list and chosen skill, the updated list starts with a record for
  the skill's name, with the skill's namespace and the fresh timestamp; its count is one
  more than the count of the record found for that name, or 1 when there was none. The
  rest of the list is the old list without the records of that name, in the old order, cut
  after 7 records, so that the list has at most 8 records, exactly one of them for the
  name.
\<close>

theorem recordUsage_behaviour:
  "\<exists>r rest. recentSkills (recordUsage now state skill) = r # rest \<and>
     name_u r = name skill \<and> namespace_u r = namespace skill \<and> timestamp_u r = now \<and>
     count_u r = (case find (\<lambda>e. name_u e = name skill) (recentSkills state) of
                    Some e \<Rightarrow> count_u e + 1 | None \<Rightarrow> 1) \<and>
     rest = take 7 (filter (\<lambda>e. name_u e \<noteq> name skill) (recentSkills state)) \<and>
     length (filter (\<lambda>e. name_u e = name skill) (recentSkills (recordUsage now state skill))) = 1 \<and>
     length (recentSkills (recordUsage now state skill)) \<le> 8 \<and>
     queuedSkill (recordUsage now state skill) = queuedSkill state"
proof -
  let ?old = "recentSkills state"
  let ?removed = "filter (\<lambda>e. name_u e \<noteq> name skill) ?old"
  let ?count = "(case find (\<lambda>e. name_u e = name skill) ?old of Some e \<Rightarrow> count_u e | None \<Rightarrow> 0) + 1"
  let ?r = "\<lparr>name_u = name skill, namespace_u = namespace skill, timestamp_u = now, count_u = ?count\<rparr>"
  have new: "recentSkills (recordUsage now state skill) = ?r # take 7 ?removed"
    by (simp add: recordUsage_def Let_def MAX_RECENTS_def)
  have cnt: "?count = (case find (\<lambda>e. name_u e = name skill) ?old of Some e \<Rightarrow> count_u e + 1 | None \<Rightarrow> 1)"
    by (simp split: option.splits)
  have "filter (\<lambda>e. name_u e = name skill) (take 7 ?removed) = []"
    by (auto simp: filter_empty_conv dest: in_set_takeD)
  then have one: "length (filter (\<lambda>e. name_u e = name skill) (?r # take 7 ?removed)) = 1"
    by simp
  have q: "queuedSkill (recordUsage now state skill) = queuedSkill state"
    by (simp add: recordUsage_def Let_def)
  show ?thesis
    unfolding new using cnt one q by (intro exI [of _ ?r] exI [of _ "take 7 ?removed"]) simp
qed

theorem recordUsage_behaviour_witness:
  "recentSkills (recordUsage 7 \<lparr>queuedSkill = None, recentSkills = []\<rparr> (makeSkill ''a'' ''b''))
     = [\<lparr>name_u = ''a'', namespace_u = ''b'', timestamp_u = 7, count_u = 1\<rparr>] \<and>
   recentSkills (recordUsage 9
       \<lparr>queuedSkill = None,
         recentSkills = [\<lparr>name_u = ''c'', namespace_u = ''b'', timestamp_u = 8, count_u = 4\<rparr>,
                         \<lparr>name_u = ''a'', namespace_u = ''b'', timestamp_u = 7, count_u = 1\<rparr>]\<rparr>
       (makeSkill ''a'' ''b''))
     = [\<lparr>name_u = ''a'', namespace_u = ''b'', timestamp_u = 9, count_u = 2\<rparr>,
        \<lparr>name_u = ''c'', namespace_u = ''b'', timestamp_u = 8, count_u = 4\<rparr>]"
proof -
  have n: "name (makeSkill ''a'' ''b'') = ''a''" "namespace (makeSkill ''a'' ''b'') = ''b''"
    by (simp_all add: makeSkill_def)
  from recordUsage_behaviour [of 7 "\<lparr>queuedSkill = None, recentSkills = []\<rparr>" "makeSkill ''a'' ''b''"]
  have first: "recentSkills (recordUsage 7 \<lparr>queuedSkill = None, recentSkills = []\<rparr> (makeSkill ''a'' ''b''))
     = [\<lparr>name_u = ''a'', namespace_u = ''b'', timestamp_u = 7, count_u = 1\<rparr>]"
    by (auto simp: n)
  from recordUsage_behaviour [of 9 "\<lparr>queuedSkill = None,
         recentSkills = [\<lparr>name_u = ''c'', namespace_u = ''b'', timestamp_u = 8, count_u = 4\<rparr>,
                         \<lparr>name_u = ''a'', namespace_u = ''b'', timestamp_u = 7, count_u = 1\<rparr>]\<rparr>" "makeSkill ''a'' ''b''"]
  have second: "recentSkills (recordUsage 9
       \<lparr>queuedSkill = None,
         recentSkills = [\<lparr>name_u = ''c'', namespace_u = ''b'', timestamp_u = 8, count_u = 4\<rparr>,
                         \<lparr>name_u = ''a'', namespace_u = ''b'', timestamp_u = 7, count_u = 1\<rparr>]\<rparr>
       (makeSkill ''a'' ''b''))
     = [\<lparr>name_u = ''a'', namespace_u = ''b'', timestamp_u = 9, count_u = 2\<rparr>,
        \<lparr>name_u = ''c'', namespace_u = ''b'', timestamp_u = 8, count_u = 4\<rparr>]"
    by (auto simp: n)
  from first second show ?thesis by blast
qed

end
